theory Spec2Isabelle
  imports Complex_Main "HOL-Library.Sublist" "HOL-Library.Word"
begin

unbundle bit_operations_syntax

section \<open>Byte strings\<close>

text \<open>
  A Go \<^verbatim>\<open>string\<close> or \<^verbatim>\<open>[]byte\<close> is a sequence of bytes; it is modelled as
  \<^typ>\<open>string\<close>, a list of 8-bit characters.
\<close>

definition CR :: char where
  "CR = CHR 0x0D"

definition LF :: char where
  "LF = CHR 0x0A"

text \<open>
  \<^verbatim>\<open>strings.Index(s, substr)\<close>: the offset of the first occurrence of \<open>substr\<close>
  in \<open>s\<close>; Go's \<open>-1\<close> is \<open>None\<close>.
\<close>

fun Index :: "string \<Rightarrow> string \<Rightarrow> nat option" where
  "Index [] sub = (if sub = [] then Some 0 else None)"
| "Index (c # cs) sub =
     (if prefix sub (c # cs) then Some 0 else map_option Suc (Index cs sub))"

section \<open>The split function of \<^verbatim>\<open>scanSerial\<close> (main.go, lines 144-156)\<close>

definition closeInstantaneousDemand :: string where
  "closeInstantaneousDemand = ''</InstantaneousDemand>'' @ [CR, LF]"

definition closeCurrentSummationDelivered :: string where
  "closeCurrentSummationDelivered = ''</CurrentSummationDelivered>'' @ [CR, LF]"

definition closeTimeCluster :: string where
  "closeTimeCluster = ''</TimeCluster>'' @ [CR, LF]"

text \<open>
  The result is the pair \<open>(advance, token)\<close>; the error the Go function returns is
  always \<open>nil\<close>. A \<open>nil\<close> token is \<open>None\<close>.
\<close>

definition splitFunc :: "string \<Rightarrow> bool \<Rightarrow> nat \<times> string option" where
  "splitFunc data atEOF =
     (case Index data closeInstantaneousDemand of
        Some i \<Rightarrow> (i + 24, Some (take (i + 24) data))
      | None \<Rightarrow>
     (case Index data closeCurrentSummationDelivered of
        Some i \<Rightarrow> (i + 30, Some (take (i + 30) data))
      | None \<Rightarrow>
     (case Index data closeTimeCluster of
        Some i \<Rightarrow> (i + 16, Some (take (i + 16) data))
      | None \<Rightarrow> (0, None))))"

subsection \<open>The framing contract, in the words of the specification\<close>

text \<open>
  The end offset (exclusive) of the closing marker \<open>m\<close> at its first occurrence.
\<close>

definition marker_end :: "string \<Rightarrow> string \<Rightarrow> nat option" where
  "marker_end data m = map_option (\<lambda>i. i + length m) (Index data m)"

definition min_opt :: "nat option \<Rightarrow> nat option \<Rightarrow> nat option" where
  "min_opt a b =
     (case a of None \<Rightarrow> b
      | Some x \<Rightarrow> (case b of None \<Rightarrow> Some x | Some y \<Rightarrow> Some (min x y)))"

text \<open>
  The specification's frame: the prefix of the buffer that ends with the closing marker
  found at the smallest offset, whichever of the three it is.
\<close>

definition spec_next_frame :: "string \<Rightarrow> string option" where
  "spec_next_frame data =
     map_option (\<lambda>e. take e data)
       (min_opt (marker_end data closeInstantaneousDemand)
         (min_opt (marker_end data closeCurrentSummationDelivered)
           (marker_end data closeTimeCluster)))"

definition two_records :: string where
  "two_records =
     ''<TimeCluster>'' @ [CR, LF] @ ''</TimeCluster>'' @ [CR, LF] @
     ''<InstantaneousDemand>'' @ [CR, LF] @ ''</InstantaneousDemand>'' @ [CR, LF]"

section \<open>\<^verbatim>\<open>bufio.Scanner\<close> over the serial port (main.go, lines 143-160 and 164)\<close>

text \<open>
  The serial port is an \<^verbatim>\<open>io.Reader\<close>. It is modelled by the chunks of bytes it
  will still deliver, one chunk per arrival; a \<^verbatim>\<open>Read\<close> into a slice of
  \<open>cap\<close> bytes returns the next chunk, or its first \<open>cap\<close> bytes when
  the chunk is longer (the rest stays for the next read). At the end of the stream a read
  returns no byte and an error.
\<close>

type_synonym Reader = "string list"

datatype scan_error = EOF | ErrTooLong | ErrNoProgress | ErrAdvanceTooFar

definition Read :: "Reader \<Rightarrow> nat \<Rightarrow> string \<times> scan_error option \<times> Reader" where
  "Read rd cap =
     (case rd of
        [] \<Rightarrow> ([], Some EOF, [])
      | c # cs \<Rightarrow>
          if length c \<le> cap then (c, None, cs)
          else (take cap c, None, drop cap c # cs))"

definition MaxScanTokenSize :: nat where
  "MaxScanTokenSize = 64 * 1024"

definition maxConsecutiveEmptyReads :: nat where
  "maxConsecutiveEmptyReads = 100"

text \<open>
  The state of a \<^verbatim>\<open>bufio.Scanner\<close>. Of the buffer \<^verbatim>\<open>s.buf\<close> the model keeps
  its length \<open>buf_len\<close> and the bytes \<^verbatim>\<open>s.buf[s.start:s.end]\<close> that are read
  and not yet consumed (\<open>pending\<close>), so that \<^verbatim>\<open>s.end\<close> is
  \<open>start + length pending\<close>; the bytes outside that window are never looked at.
  The fields \<^verbatim>\<open>empties\<close> and \<^verbatim>\<open>done\<close> are left out: the split function of this
  program returns no error and no token without advancing.
\<close>

record Scanner =
  rdr :: Reader
  buf_len :: nat
  start :: nat
  pending :: string
  err :: "scan_error option"

definition buf_end :: "Scanner \<Rightarrow> nat" where
  "buf_end s = start s + length (pending s)"

text \<open>
  \<^verbatim>\<open>bufio.NewScanner(s)\<close>, then \<^verbatim>\<open>scanner.Buffer(make([]byte, 2), bufio.MaxScanTokenSize)\<close>.
\<close>

definition NewScanner :: "Reader \<Rightarrow> Scanner" where
  "NewScanner rd = \<lparr>rdr = rd, buf_len = 2, start = 0, pending = [], err = None\<rparr>"

definition setErr :: "Scanner \<Rightarrow> scan_error \<Rightarrow> Scanner" where
  "setErr s e = (if err s = None \<or> err s = Some EOF then s\<lparr>err := Some e\<rparr> else s)"

text \<open>The loop that reads once more into the free end of the buffer.\<close>

function readLoop :: "nat \<Rightarrow> nat \<Rightarrow> Reader \<Rightarrow> string \<times> scan_error option \<times> Reader" where
  "readLoop loop cap rd =
     (case Read rd cap of
        (bytes, e, rd') \<Rightarrow>
          if e \<noteq> None then (bytes, e, rd')
          else if length bytes > 0 then (bytes, None, rd')
          else if loop + 1 > maxConsecutiveEmptyReads then (bytes, Some ErrNoProgress, rd')
          else readLoop (loop + 1) cap rd')"
  by pat_completeness auto
termination
  by (relation "measure (\<lambda>(loop, cap, rd). Suc maxConsecutiveEmptyReads - loop)") auto

text \<open>
  The first part of an iteration of the loop of \<^verbatim>\<open>Scan\<close>: the split function is
  tried on the bytes at hand, or at the end of the input.
\<close>

definition trySplit :: "Scanner \<Rightarrow> nat \<times> string option" where
  "trySplit s =
     (if pending s \<noteq> [] \<or> err s \<noteq> None then splitFunc (pending s) (err s \<noteq> None)
      else (0, None))"

definition advance :: "Scanner \<Rightarrow> nat \<Rightarrow> Scanner" where
  "advance s n = s\<lparr>start := start s + n, pending := drop n (pending s)\<rparr>"

text \<open>
  The second part: the data is shifted to the beginning of the buffer when space is
  needed, the buffer is doubled when it is full (up to \<open>MaxScanTokenSize\<close>), and the
  input is read. \<open>Inl\<close> is a return of \<^verbatim>\<open>Scan\<close>, \<open>Inr\<close> the next iteration.
\<close>

definition shiftData :: "Scanner \<Rightarrow> Scanner" where
  "shiftData s =
     (if start s > 0 \<and> (buf_end s = buf_len s \<or> start s > buf_len s div 2)
      then s\<lparr>start := 0\<rparr> else s)"

definition growBuffer :: "Scanner \<Rightarrow> Scanner" where
  "growBuffer s =
     (if buf_end s = buf_len s
      then s\<lparr>buf_len := min (buf_len s * 2) MaxScanTokenSize, start := 0\<rparr>
      else s)"

definition readMore :: "Scanner \<Rightarrow> Scanner" where
  "readMore s =
     (case readLoop 0 (buf_len s - buf_end s) (rdr s) of
        (bytes, e, rd') \<Rightarrow> s\<lparr>rdr := rd', pending := pending s @ bytes, err := e\<rparr>)"

definition fillBuffer :: "Scanner \<Rightarrow> (string option \<times> Scanner) + Scanner" where
  "fillBuffer s =
     (let s2 = shiftData s in
      if buf_end s2 = buf_len s2 \<and> buf_len s2 \<ge> MaxScanTokenSize
      then Inl (None, setErr s2 ErrTooLong)
      else Inr (readMore (growBuffer s2)))"

text \<open>
  One iteration of the loop of \<^verbatim>\<open>Scan\<close>: \<open>Inl (token, s')\<close> when \<^verbatim>\<open>Scan\<close>
  returns (\<open>Some\<close> token with \<^verbatim>\<open>true\<close>, \<open>None\<close> with \<^verbatim>\<open>false\<close>),
  \<open>Inr s'\<close> when the loop goes round again after a read.
\<close>

definition scanIter :: "Scanner \<Rightarrow> (string option \<times> Scanner) + Scanner" where
  "scanIter s =
     (case trySplit s of
        (n, token) \<Rightarrow>
          if n > length (pending s) then Inl (None, setErr s ErrAdvanceTooFar)
          else if token \<noteq> None then Inl (token, advance s n)
          else if err s \<noteq> None then Inl (None, (advance s n)\<lparr>start := 0, pending := []\<rparr>)
          else fillBuffer (advance s n))"

definition reader_size :: "Reader \<Rightarrow> nat" where
  "reader_size rd = sum_list (map (\<lambda>c. Suc (length c)) rd)"

definition scan_measure :: "Scanner \<Rightarrow> nat" where
  "scan_measure s = (if err s = None then Suc (reader_size (rdr s)) else 0)"

lemma readLoop_progress:
  "readLoop loop cap rd = (bytes, e, rd') \<Longrightarrow> e = None \<Longrightarrow> reader_size rd' < reader_size rd"
proof (induction loop cap rd rule: readLoop.induct)
  case (1 loop cap rd)
  obtain b1 e1 r1 where R: "Read rd cap = (b1, e1, r1)"
    by (cases "Read rd cap") auto
  have e1: "e1 = None"
    using "1.prems" R by (auto split: if_splits)
  have le: "reader_size r1 \<le> reader_size rd"
    using R e1 by (auto simp: Read_def reader_size_def split: list.splits if_splits)
  show ?case
  proof (cases "length b1 > 0")
    case True
    then have "bytes = b1" "rd' = r1"
      using "1.prems" R e1 by auto
    moreover have "reader_size r1 < reader_size rd"
      using R True by (auto simp: Read_def reader_size_def split: list.splits if_splits)
    ultimately show ?thesis by simp
  next
    case False
    then have more: "\<not> loop + 1 > maxConsecutiveEmptyReads"
      and rec: "readLoop (loop + 1) cap r1 = (bytes, e, rd')"
      using "1.prems" R e1 by (auto split: if_splits)
    have "reader_size rd' < reader_size r1"
      using "1.IH"[OF R[symmetric] refl] e1 False more rec "1.prems"(2) by simp
    with le show ?thesis by simp
  qed
qed

lemma readMore_decreases:
  "err s = None \<Longrightarrow> scan_measure (readMore s) < scan_measure s"
proof -
  assume e0: "err s = None"
  obtain bytes e rd' where rl: "readLoop 0 (buf_len s - buf_end s) (rdr s) = (bytes, e, rd')"
    by (cases "readLoop 0 (buf_len s - buf_end s) (rdr s)") auto
  show ?thesis
  proof (cases e)
    case None
    with readLoop_progress[OF rl] rl e0 show ?thesis
      by (simp add: scan_measure_def readMore_def)
  next
    case (Some a)
    with rl e0 show ?thesis by (simp add: scan_measure_def readMore_def)
  qed
qed

lemma fillBuffer_decreases:
  assumes "fillBuffer s = Inr s'" and "err s = None"
  shows "scan_measure s' < scan_measure s"
proof -
  let ?g = "growBuffer (shiftData s)"
  have s': "s' = readMore ?g"
    using assms(1) by (simp add: fillBuffer_def Let_def split: if_splits)
  have "err ?g = None" "rdr ?g = rdr s"
    using assms(2) by (simp_all add: growBuffer_def shiftData_def)
  then have "scan_measure ?g = scan_measure s"
    using assms(2) by (simp add: scan_measure_def)
  with readMore_decreases[OF \<open>err ?g = None\<close>] s' show ?thesis by simp
qed

lemma scanIter_Inr:
  assumes "scanIter s = Inr s'"
  shows "err s = None \<and> fillBuffer (advance s (fst (trySplit s))) = Inr s'"
proof -
  obtain n token where t: "trySplit s = (n, token)"
    by (cases "trySplit s") auto
  with assms show ?thesis
    by (simp add: scanIter_def split: if_splits)
qed

lemma scanIter_decreases:
  assumes "scanIter s = Inr s'"
  shows "scan_measure s' < scan_measure s"
proof -
  from scanIter_Inr[OF assms] have e: "err s = None"
    and f: "fillBuffer (advance s (fst (trySplit s))) = Inr s'" by simp_all
  have "scan_measure (advance s (fst (trySplit s))) = scan_measure s"
    by (simp add: scan_measure_def advance_def)
  moreover have "err (advance s (fst (trySplit s))) = None"
    using e by (simp add: advance_def)
  ultimately show ?thesis
    using fillBuffer_decreases[OF f] by simp
qed

text \<open>\<^verbatim>\<open>Scan\<close>: the token and \<^verbatim>\<open>true\<close>, or \<^verbatim>\<open>false\<close> (\<open>None\<close>).\<close>

function Scan :: "Scanner \<Rightarrow> string option \<times> Scanner" where
  "Scan s = (case scanIter s of Inl res \<Rightarrow> res | Inr s' \<Rightarrow> Scan s')"
  by pat_completeness auto
termination
  by (relation "measure scan_measure") (auto dest: scanIter_decreases)

declare Scan.simps [simp del]

section \<open>Validation of the required fields (main.go, lines 22-24, 35-38, 168, 189)\<close>

text \<open>
  The tag \<^verbatim>\<open>validate:"required,hexadecimal"\<close> of the validator package: \<^verbatim>\<open>required\<close>
  holds of a string that is not empty, \<^verbatim>\<open>hexadecimal\<close> of a string that matches the
  regular expression \<^verbatim>\<open>^(0[xX])?[0-9a-fA-F]+$\<close>.
\<close>

definition byte :: "char \<Rightarrow> nat" where
  "byte c = of_char c"

definition isHexDigit :: "char \<Rightarrow> bool" where
  "isHexDigit c =
     (byte CHR ''0'' \<le> byte c \<and> byte c \<le> byte CHR ''9'' \<or>
      byte CHR ''a'' \<le> byte c \<and> byte c \<le> byte CHR ''f'' \<or>
      byte CHR ''A'' \<le> byte c \<and> byte c \<le> byte CHR ''F'')"

definition hexDigits :: "string \<Rightarrow> bool" where
  "hexDigits s = (s \<noteq> [] \<and> list_all isHexDigit s)"

definition isHexadecimal :: "string \<Rightarrow> bool" where
  "isHexadecimal s =
     (hexDigits s \<or>
      (case s of
         c0 # c1 # t \<Rightarrow> c0 = CHR ''0'' \<and> (c1 = CHR ''x'' \<or> c1 = CHR ''X'') \<and> hexDigits t
       | _ \<Rightarrow> False))"

definition hasValue :: "string \<Rightarrow> bool" where
  "hasValue s = (s \<noteq> [])"

definition required_hexadecimal :: "string \<Rightarrow> bool" where
  "required_hexadecimal s = (hasValue s \<and> isHexadecimal s)"

section \<open>\<^verbatim>\<open>strconv.ParseInt\<close> (main.go, lines 173-184 and 194-209)\<close>

datatype num_error = ErrSyntax | ErrRange | ErrBase | ErrBitSize

definition maxUint64 :: nat where
  "maxUint64 = 2 ^ 64 - 1"

definition uint64 :: "nat \<Rightarrow> nat" where
  "uint64 n = n mod 2 ^ 64"

text \<open>\<^verbatim>\<open>lower(c)\<close> is \<^verbatim>\<open>c | ('x' - 'X')\<close>.\<close>

definition lower :: "char \<Rightarrow> nat" where
  "lower c = byte c OR 32"

text \<open>
  The value of a digit: \<open>None\<close> for a byte that is no digit and no letter.
\<close>

definition digitVal :: "char \<Rightarrow> nat option" where
  "digitVal c =
     (if byte CHR ''0'' \<le> byte c \<and> byte c \<le> byte CHR ''9'' then Some (byte c - byte CHR ''0'')
      else if byte CHR ''a'' \<le> lower c \<and> lower c \<le> byte CHR ''z''
      then Some (lower c - byte CHR ''a'' + 10)
      else None)"

text \<open>
  The digit loop of \<^verbatim>\<open>ParseUint\<close>. The result is the value with the flag
  \<^verbatim>\<open>underscores\<close>, or the error with the value Go returns beside it.
\<close>

fun parseDigits ::
  "bool \<Rightarrow> nat \<Rightarrow> nat \<Rightarrow> nat \<Rightarrow> string \<Rightarrow> bool \<Rightarrow> nat \<Rightarrow> (nat \<times> num_error) + (nat \<times> bool)" where
  "parseDigits base0 base cutoff maxVal [] underscores n = Inr (n, underscores)"
| "parseDigits base0 base cutoff maxVal (c # cs) underscores n =
     (if c = CHR ''_'' \<and> base0 then parseDigits base0 base cutoff maxVal cs True n
      else
        case digitVal c of
          None \<Rightarrow> Inl (0, ErrSyntax)
        | Some d \<Rightarrow>
            if d \<ge> base then Inl (0, ErrSyntax)
            else if n \<ge> cutoff then Inl (maxVal, ErrRange)
            else
              let n' = uint64 (n * base); n1 = uint64 (n' + d) in
              if n1 < n' \<or> n1 > maxVal then Inl (maxVal, ErrRange)
              else parseDigits base0 base cutoff maxVal cs underscores n1)"

text \<open>
  \<^verbatim>\<open>underscoreOK\<close>: underscores only between digits, or between the base prefix and
  a digit. \<open>saw\<close> is the last character seen, as in the Go function.
\<close>

fun underscoreLoop :: "bool \<Rightarrow> char \<Rightarrow> string \<Rightarrow> bool" where
  "underscoreLoop hex saw [] = (saw \<noteq> CHR ''_'')"
| "underscoreLoop hex saw (c # cs) =
     (if byte CHR ''0'' \<le> byte c \<and> byte c \<le> byte CHR ''9'' \<or>
         hex \<and> byte CHR ''a'' \<le> lower c \<and> lower c \<le> byte CHR ''f''
      then underscoreLoop hex CHR ''0'' cs
      else if c = CHR ''_'' then (if saw \<noteq> CHR ''0'' then False else underscoreLoop hex CHR ''_'' cs)
      else if saw = CHR ''_'' then False
      else underscoreLoop hex CHR ''!'' cs)"

definition underscoreOK :: "string \<Rightarrow> bool" where
  "underscoreOK s0 =
     (let s = (case s0 of c # t \<Rightarrow> if c = CHR ''-'' \<or> c = CHR ''+'' then t else s0 | [] \<Rightarrow> s0) in
      case s of
        c0 # c1 # t \<Rightarrow>
          if c0 = CHR ''0'' \<and>
             (lower c1 = byte CHR ''b'' \<or> lower c1 = byte CHR ''o'' \<or> lower c1 = byte CHR ''x'')
          then underscoreLoop (lower c1 = byte CHR ''x'') CHR ''0'' t
          else underscoreLoop False CHR ''^'' s
      | _ \<Rightarrow> underscoreLoop False CHR ''^'' s)"

text \<open>
  In \<^verbatim>\<open>ParseUint\<close>, \<^verbatim>\<open>maxVal\<close> is \<^verbatim>\<open>uint64(1)<<uint(bitSize) - 1\<close> in 64-bit
  arithmetic: subtracting 1 is adding \<open>2 ^ 64 - 1\<close> modulo \<open>2 ^ 64\<close>.
  With base 0 the base is taken from the prefix: \<^verbatim>\<open>0b\<close>, \<^verbatim>\<open>0o\<close>, \<^verbatim>\<open>0x\<close>, a
  leading \<^verbatim>\<open>0\<close> for octal, and decimal otherwise.
\<close>

definition basePrefix :: "string \<Rightarrow> nat \<times> string" where
  "basePrefix s =
     (case s of
        c0 # t \<Rightarrow>
          if c0 = CHR ''0'' then
            (case t of
               c1 # u \<Rightarrow>
                 if length s \<ge> 3 \<and> lower c1 = byte CHR ''b'' then (2, u)
                 else if length s \<ge> 3 \<and> lower c1 = byte CHR ''o'' then (8, u)
                 else if length s \<ge> 3 \<and> lower c1 = byte CHR ''x'' then (16, u)
                 else (8, t)
             | [] \<Rightarrow> (8, t))
          else (10, s)
      | [] \<Rightarrow> (10, s))"

definition ParseUint :: "string \<Rightarrow> nat \<Rightarrow> nat \<Rightarrow> nat \<times> num_error option" where
  "ParseUint s0 base bitSize =
     (if s0 = [] then (0, Some ErrSyntax)
      else if \<not> (base = 0 \<or> 2 \<le> base \<and> base \<le> 36) then (0, Some ErrBase)
      else
        let (b, s) = (if base = 0 then basePrefix s0 else (base, s0)) in
        if bitSize > 64 then (0, Some ErrBitSize)
        else
          let bits = (if bitSize = 0 then 64 else bitSize);
              cutoff = maxUint64 div b + 1;
              maxVal = uint64 (uint64 (2 ^ bits) + maxUint64)
          in
            case parseDigits (base = 0) b cutoff maxVal s False 0 of
              Inl (v, e) \<Rightarrow> (v, Some e)
            | Inr (n, underscores) \<Rightarrow>
                if underscores \<and> \<not> underscoreOK s0 then (0, Some ErrSyntax)
                else (n, None))"

definition ParseInt :: "string \<Rightarrow> nat \<Rightarrow> nat \<Rightarrow> int \<times> num_error option" where
  "ParseInt s0 base bitSize =
     (if s0 = [] then (0, Some ErrSyntax)
      else
        let neg = (hd s0 = CHR ''-'');
            s = (if hd s0 = CHR ''+'' \<or> hd s0 = CHR ''-'' then tl s0 else s0)
        in
          case ParseUint s base bitSize of
            (un, e) \<Rightarrow>
              if e \<noteq> None \<and> e \<noteq> Some ErrRange then (0, e)
              else
                let bits = (if bitSize = 0 then 64 else bitSize);
                    cutoff = 2 ^ (bits - 1)
                in
                  if \<not> neg \<and> un \<ge> cutoff then (int cutoff - 1, Some ErrRange)
                  else if neg \<and> un > cutoff then (- int cutoff, Some ErrRange)
                  else (if neg then - int un else int un, None))"

text \<open>
  The value a string of hexadecimal digits denotes; it states what \<^verbatim>\<open>ParseInt\<close>
  returns on a field with the prefix \<^verbatim>\<open>0x\<close>.
\<close>

definition hexDigitVal :: "char \<Rightarrow> nat" where
  "hexDigitVal c = (case digitVal c of Some d \<Rightarrow> d | None \<Rightarrow> 0)"

definition hexValue :: "string \<Rightarrow> nat" where
  "hexValue ds = foldl (\<lambda>n c. n * 16 + hexDigitVal c) 0 ds"

section \<open>\<^verbatim>\<open>float64\<close> arithmetic (main.go, lines 185, 210, 211)\<close>

text \<open>
  An IEEE 754 binary64 value: a finite value with its sign (\<open>True\<close> is negative) and
  its magnitude, an infinity with its sign, or a NaN. The zeros are \<open>Finite False 0\<close>
  and \<open>Finite True 0\<close>.
\<close>

datatype float64 = Finite bool rat | Infinite bool | NaN

fun log2_nat :: "nat \<Rightarrow> nat" where
  "log2_nat n = (if n < 2 then 0 else Suc (log2_nat (n div 2)))"

declare log2_nat.simps [simp del]

text \<open>The integer \<open>e\<close> with \<open>2 ^ e \<le> q < 2 ^ (e + 1)\<close>, for \<open>q > 0\<close>.\<close>

definition floor_log2 :: "rat \<Rightarrow> int" where
  "floor_log2 q =
     (if q \<ge> 1 then int (log2_nat (nat \<lfloor>q\<rfloor>))
      else
        let r = 1 / q; k = log2_nat (nat \<lfloor>r\<rfloor>) in
        if r = 2 ^ k then - int k else - int k - 1)"

definition pow2 :: "int \<Rightarrow> rat" where
  "pow2 e = (if e \<ge> 0 then 2 ^ nat e else 1 / 2 ^ nat (- e))"

definition round_half_even :: "rat \<Rightarrow> int" where
  "round_half_even q =
     (let f = \<lfloor>q\<rfloor>; d = q - of_int f in
      if d < 1 / 2 then f
      else if d > 1 / 2 then f + 1
      else if even f then f else f + 1)"

text \<open>
  Rounding of the exact magnitude \<open>q \<ge> 0\<close> of a result to binary64, to nearest with
  ties to even: 53 significant bits, the least exponent \<open>-1074\<close> (subnormal numbers),
  overflow to infinity from \<open>2 ^ 1024\<close>.
\<close>

definition round_f64 :: "bool \<Rightarrow> rat \<Rightarrow> float64" where
  "round_f64 sg q =
     (if q = 0 then Finite sg 0
      else
        let e = max (floor_log2 q - 52) (- 1074);
            m = round_half_even (q / pow2 e);
            v = of_int m * pow2 e
        in if v \<ge> 2 ^ 1024 then Infinite sg else Finite sg v)"

fun f64_mul :: "float64 \<Rightarrow> float64 \<Rightarrow> float64" where
  "f64_mul NaN y = NaN"
| "f64_mul x NaN = NaN"
| "f64_mul (Infinite s) (Infinite t) = Infinite (s \<noteq> t)"
| "f64_mul (Infinite s) (Finite t q) = (if q = 0 then NaN else Infinite (s \<noteq> t))"
| "f64_mul (Finite s p) (Infinite t) = (if p = 0 then NaN else Infinite (s \<noteq> t))"
| "f64_mul (Finite s p) (Finite t q) = round_f64 (s \<noteq> t) (p * q)"

fun f64_div :: "float64 \<Rightarrow> float64 \<Rightarrow> float64" where
  "f64_div NaN y = NaN"
| "f64_div x NaN = NaN"
| "f64_div (Infinite s) (Infinite t) = NaN"
| "f64_div (Infinite s) (Finite t q) = Infinite (s \<noteq> t)"
| "f64_div (Finite s p) (Infinite t) = Finite (s \<noteq> t) 0"
| "f64_div (Finite s p) (Finite t q) =
     (if q = 0 then (if p = 0 then NaN else Infinite (s \<noteq> t))
      else round_f64 (s \<noteq> t) (p / q))"

text \<open>\<^verbatim>\<open>float64(n)\<close> of an integer, and \<^verbatim>\<open>int32(i)\<close> of an \<^verbatim>\<open>int64\<close>.\<close>

definition f64_of_int :: "int \<Rightarrow> float64" where
  "f64_of_int i = round_f64 (i < 0) (of_int \<bar>i\<bar>)"

definition int32 :: "int \<Rightarrow> int" where
  "int32 i = sint (word_of_int i :: 32 word)"

text \<open>
  \<^verbatim>\<open>int(f)\<close>: the fraction is discarded. Where the value is an infinity, a NaN or
  outside the 64-bit range, Go leaves the result to the implementation: \<open>impl\<close> is what
  the platform gives there.
\<close>

definition f64_to_int :: "(float64 \<Rightarrow> int) \<Rightarrow> float64 \<Rightarrow> int" where
  "f64_to_int impl f =
     (case f of
        Finite sg q \<Rightarrow>
          let t = (if sg then - \<lfloor>q\<rfloor> else \<lfloor>q\<rfloor>) in
          if - (2 ^ 63) \<le> t \<and> t < 2 ^ 63 then t else impl f
      | _ \<Rightarrow> impl f)"

text \<open>The result of the conversion on amd64, the "integer indefinite" value.\<close>

definition amd64_indefinite :: "float64 \<Rightarrow> int" where
  "amd64_indefinite f = - (2 ^ 63)"

section \<open>\<^verbatim>\<open>fmt.Sprintf\<close> with the verbs \<^verbatim>\<open>%v\<close> and \<^verbatim>\<open>%.3f\<close>\<close>

definition digit :: "nat \<Rightarrow> char" where
  "digit d = ''0123456789'' ! (d mod 10)"

fun showNat :: "nat \<Rightarrow> string" where
  "showNat n = (if n < 10 then [digit n] else showNat (n div 10) @ [digit (n mod 10)])"

declare showNat.simps [simp del]

definition Sprintf_v :: "int \<Rightarrow> string" where
  "Sprintf_v i = (if i < 0 then CHR ''-'' # showNat (nat (- i)) else showNat (nat i))"

text \<open>
  \<^verbatim>\<open>%.3f\<close>: the exact value rounded to three decimals, ties to even; the sign of a
  negative value (also of a negative zero) is kept.
\<close>

definition Sprintf_3f :: "float64 \<Rightarrow> string" where
  "Sprintf_3f f =
     (case f of
        NaN \<Rightarrow> ''NaN''
      | Infinite sg \<Rightarrow> (if sg then ''-Inf'' else ''+Inf'')
      | Finite sg q \<Rightarrow>
          let n = nat (round_half_even (q * 1000)) in
          (if sg then ''-'' else []) @ showNat (n div 1000) @ ''.'' @
          [digit (n div 100), digit (n div 10), digit n])"

text \<open>
  The shape of a decimal with exactly three fraction digits: an optional minus sign, one
  or more digits, a point, three digits.
\<close>

definition isDigit :: "char \<Rightarrow> bool" where
  "isDigit c = (byte CHR ''0'' \<le> byte c \<and> byte c \<le> byte CHR ''9'')"

definition three_decimals :: "string \<Rightarrow> bool" where
  "three_decimals s =
     (let b = (case s of c # t \<Rightarrow> if c = CHR ''-'' then t else s | [] \<Rightarrow> s);
          n = length b
      in 5 \<le> n \<and> list_all isDigit (take (n - 4) b) \<and> b ! (n - 4) = CHR ''.'' \<and>
         list_all isDigit (drop (n - 3) b))"

section \<open>The records and \<^verbatim>\<open>xml.Unmarshal\<close> (main.go, lines 17-42, 167, 188)\<close>

text \<open>
  The decoder of \<^verbatim>\<open>encoding/xml\<close> is modelled on the frames the meter sends: elements
  \<^verbatim>\<open><Name>text</Name>\<close> without attributes, with text of printable ASCII characters
  and line breaks, and no entity, comment or CDATA section. Any other byte is taken as a
  syntax error, at which \<^verbatim>\<open>Unmarshal\<close> stops. The decoder assigns a field when the end
  of its element is read, and assigns nothing else: a field whose element is absent
  keeps the value it had, and the fields assigned before an error stay assigned.
\<close>

datatype xml_token = StartElement string | EndElement string | CharData string

definition isNameChar :: "char \<Rightarrow> bool" where
  "isNameChar c =
     (byte CHR ''a'' \<le> byte c \<and> byte c \<le> byte CHR ''z'' \<or>
      byte CHR ''A'' \<le> byte c \<and> byte c \<le> byte CHR ''Z'' \<or>
      byte CHR ''0'' \<le> byte c \<and> byte c \<le> byte CHR ''9'')"

definition isTextChar :: "char \<Rightarrow> bool" where
  "isTextChar c =
     (c = CR \<or> c = LF \<or> c = CHR 0x09 \<or>
      32 \<le> byte c \<and> byte c < 127 \<and> c \<noteq> CHR ''<'' \<and> c \<noteq> CHR ''>'' \<and> c \<noteq> CHR ''&'')"

text \<open>In character data \<^verbatim>\<open>\r\n\<close> and \<^verbatim>\<open>\r\<close> are read as \<^verbatim>\<open>\n\<close>.\<close>

fun normNewlines :: "string \<Rightarrow> string" where
  "normNewlines [] = []"
| "normNewlines [c] = (if c = CR then [LF] else [c])"
| "normNewlines (c # d # cs) =
     (if c = CR then (if d = LF then LF # normNewlines cs else LF # normNewlines (d # cs))
      else c # normNewlines (d # cs))"

definition mkTag :: "string \<Rightarrow> xml_token option" where
  "mkTag t =
     (case t of
        [] \<Rightarrow> None
      | c # n \<Rightarrow>
          if c = CHR ''/'' then (if n \<noteq> [] \<and> list_all isNameChar n then Some (EndElement n) else None)
          else if list_all isNameChar t then Some (StartElement t)
          else None)"

definition emitText :: "string \<Rightarrow> xml_token list \<Rightarrow> xml_token list" where
  "emitText acc rest = (if acc = [] then rest else CharData (normNewlines (rev acc)) # rest)"

text \<open>
  The tokens of the input up to its end or to the first syntax error; \<open>acc\<close> holds the
  bytes of the token being read, last byte first.
\<close>

fun lexText :: "string \<Rightarrow> string \<Rightarrow> xml_token list"
  and lexTag :: "string \<Rightarrow> string \<Rightarrow> xml_token list" where
  "lexText acc [] = emitText acc []"
| "lexText acc (c # cs) =
     (if c = CHR ''<'' then emitText acc (lexTag [] cs)
      else if isTextChar c then lexText (c # acc) cs
      else [])"
| "lexTag acc [] = []"
| "lexTag acc (c # cs) =
     (if c = CHR ''>'' then (case mkTag (rev acc) of Some t \<Rightarrow> t # lexText [] cs | None \<Rightarrow> [])
      else lexTag (c # acc) cs)"

text \<open>
  The children of the root element: \<open>setf name text\<close> assigns the field of the element
  \<open>name\<close> (and nothing when the record has no such field).
\<close>

fun decodeChildren :: "(string \<Rightarrow> string \<Rightarrow> 'r \<Rightarrow> 'r) \<Rightarrow> xml_token list \<Rightarrow> 'r \<Rightarrow> 'r" where
  "decodeChildren setf [] r = r"
| "decodeChildren setf (CharData t # ts) r = decodeChildren setf ts r"
| "decodeChildren setf (EndElement n # ts) r = r"
| "decodeChildren setf (StartElement n # EndElement m # ts) r =
     (if m = n then decodeChildren setf ts (setf n [] r) else r)"
| "decodeChildren setf (StartElement n # CharData t # EndElement m # ts) r =
     (if m = n then decodeChildren setf ts (setf n t r) else r)"
| "decodeChildren setf (StartElement n # ts) r = r"

fun skipCharData :: "xml_token list \<Rightarrow> xml_token list" where
  "skipCharData (CharData t # ts) = skipCharData ts"
| "skipCharData ts = ts"

text \<open>
  \<^verbatim>\<open>xml.Unmarshal(data, &r)\<close> for a record whose field \<^verbatim>\<open>XMLName\<close> names the
  element \<open>rootName\<close>; the error it returns is dropped by the program.
\<close>

definition xmlUnmarshal ::
  "string \<Rightarrow> (string \<Rightarrow> string \<Rightarrow> 'r \<Rightarrow> 'r) \<Rightarrow> string \<Rightarrow> 'r \<Rightarrow> 'r" where
  "xmlUnmarshal rootName setf data r =
     (case skipCharData (lexText [] data) of
        StartElement n # ts \<Rightarrow> if n = rootName then decodeChildren setf ts (setf ''XMLName'' n r) else r
      | _ \<Rightarrow> r)"

record InstantaneousDemand =
  XMLName :: string
  DeviceMacId :: string
  MeterMacId :: string
  TimeStamp :: string
  Demand :: string
  Multiplier :: string
  Divisor :: string
  DigitsRight :: string
  DigitsLeft :: string
  SuppressLeadingZero :: string

definition setInstantaneousDemand ::
  "string \<Rightarrow> string \<Rightarrow> InstantaneousDemand \<Rightarrow> InstantaneousDemand" where
  "setInstantaneousDemand name v r =
     (if name = ''XMLName'' then r\<lparr>XMLName := v\<rparr>
      else if name = ''DeviceMacId'' then r\<lparr>DeviceMacId := v\<rparr>
      else if name = ''MeterMacId'' then r\<lparr>MeterMacId := v\<rparr>
      else if name = ''TimeStamp'' then r\<lparr>TimeStamp := v\<rparr>
      else if name = ''Demand'' then r\<lparr>Demand := v\<rparr>
      else if name = ''Multiplier'' then r\<lparr>Multiplier := v\<rparr>
      else if name = ''Divisor'' then r\<lparr>Divisor := v\<rparr>
      else if name = ''DigitsRight'' then r\<lparr>DigitsRight := v\<rparr>
      else if name = ''DigitsLeft'' then r\<lparr>DigitsLeft := v\<rparr>
      else if name = ''SuppressLeadingZero'' then r\<lparr>SuppressLeadingZero := v\<rparr>
      else r)"

text \<open>\<^verbatim>\<open>v.Struct(instantaneousDemand)\<close> returns no error.\<close>

definition validInstantaneousDemand :: "InstantaneousDemand \<Rightarrow> bool" where
  "validInstantaneousDemand r =
     (required_hexadecimal (Demand r) \<and> required_hexadecimal (Multiplier r) \<and>
      required_hexadecimal (Divisor r))"

definition zeroInstantaneousDemand :: InstantaneousDemand where
  "zeroInstantaneousDemand =
     \<lparr>XMLName = [], DeviceMacId = [], MeterMacId = [], TimeStamp = [], Demand = [],
      Multiplier = [], Divisor = [], DigitsRight = [], DigitsLeft = [],
      SuppressLeadingZero = []\<rparr>"

record CurrentSummationDelivered =
  XMLName :: string
  DeviceMacId :: string
  MeterMacId :: string
  TimeStamp :: string
  SummationDelivered :: string
  SummationReceived :: string
  Multiplier :: string
  Divisor :: string
  DigitsRight :: string
  DigitsLeft :: string
  SuppressLeadingZero :: string

definition setCurrentSummationDelivered ::
  "string \<Rightarrow> string \<Rightarrow> CurrentSummationDelivered \<Rightarrow> CurrentSummationDelivered" where
  "setCurrentSummationDelivered name v r =
     (if name = ''XMLName'' then r\<lparr>XMLName := v\<rparr>
      else if name = ''DeviceMacId'' then r\<lparr>DeviceMacId := v\<rparr>
      else if name = ''MeterMacId'' then r\<lparr>MeterMacId := v\<rparr>
      else if name = ''TimeStamp'' then r\<lparr>TimeStamp := v\<rparr>
      else if name = ''SummationDelivered'' then r\<lparr>SummationDelivered := v\<rparr>
      else if name = ''SummationReceived'' then r\<lparr>SummationReceived := v\<rparr>
      else if name = ''Multiplier'' then r\<lparr>Multiplier := v\<rparr>
      else if name = ''Divisor'' then r\<lparr>Divisor := v\<rparr>
      else if name = ''DigitsRight'' then r\<lparr>DigitsRight := v\<rparr>
      else if name = ''DigitsLeft'' then r\<lparr>DigitsLeft := v\<rparr>
      else if name = ''SuppressLeadingZero'' then r\<lparr>SuppressLeadingZero := v\<rparr>
      else r)"

text \<open>\<^verbatim>\<open>v.Struct(currentSummationDelivered)\<close> returns no error.\<close>

definition validCurrentSummationDelivered :: "CurrentSummationDelivered \<Rightarrow> bool" where
  "validCurrentSummationDelivered r =
     (required_hexadecimal (SummationDelivered r) \<and> required_hexadecimal (SummationReceived r) \<and>
      required_hexadecimal (Multiplier r) \<and> required_hexadecimal (Divisor r))"

definition zeroCurrentSummationDelivered :: CurrentSummationDelivered where
  "zeroCurrentSummationDelivered =
     \<lparr>XMLName = [], DeviceMacId = [], MeterMacId = [], TimeStamp = [],
      SummationDelivered = [], SummationReceived = [], Multiplier = [], Divisor = [],
      DigitsRight = [], DigitsLeft = [], SuppressLeadingZero = []\<rparr>"

section \<open>The loop of \<^verbatim>\<open>scanSerial\<close> (main.go, lines 112-127 and 138-219)\<close>

text \<open>
  The variables of \<^verbatim>\<open>scanSerial\<close> that live across the iterations of its loop, and
  \<open>published\<close>, the calls of \<^verbatim>\<open>m.Publish\<close> so far, each with its topic and payload,
  the latest last.
\<close>

record state =
  instantaneousDemand :: InstantaneousDemand
  currentSummationDelivered :: CurrentSummationDelivered
  demand :: string
  delivered :: string
  received :: string
  published :: "(string \<times> string) list"

definition initial_state :: state where
  "initial_state =
     \<lparr>instantaneousDemand = zeroInstantaneousDemand,
      currentSummationDelivered = zeroCurrentSummationDelivered,
      demand = [], delivered = [], received = [], published = []\<rparr>"

definition power_topic :: string where
  "power_topic = ''homeassistant/sensor/meter_power_demand/state''"

definition delivered_topic :: string where
  "delivered_topic = ''homeassistant/sensor/meter_total_energy_delivered/state''"

definition received_topic :: string where
  "received_topic = ''homeassistant/sensor/meter_total_energy_received/state''"

definition Publish :: "string \<Rightarrow> string \<Rightarrow> state \<Rightarrow> state" where
  "Publish topic payload st = st\<lparr>published := published st @ [(topic, payload)]\<rparr>"

definition publishPower :: "string \<Rightarrow> state \<Rightarrow> state" where
  "publishPower d st = (if d \<noteq> [] then Publish power_topic d st else st)"

definition publishEnergy :: "string \<Rightarrow> string \<Rightarrow> state \<Rightarrow> state" where
  "publishEnergy d r st =
     (let st1 = (if d \<noteq> [] then Publish delivered_topic d st else st)
      in if r \<noteq> [] then Publish received_topic r st1 else st1)"

text \<open>
  What ends the process inside the loop: \<^verbatim>\<open>log.Fatal("ERROR parsing XML:", err)\<close>,
  \<^verbatim>\<open>log.Fatal("Unexpected case")\<close>, or the run-time panic of \<^verbatim>\<open>scanner.Text()[1]\<close>
  on a token of fewer than two bytes.
\<close>

datatype fatal = ErrorParsingXML | UnexpectedCase | IndexOutOfRange

text \<open>
  The outcome of one iteration: \<open>Next\<close> when the loop goes on (also after
  \<^verbatim>\<open>continue\<close>), \<open>Fatal\<close> when the process ends, each with the state reached.
\<close>

datatype step = Next state | Fatal fatal state

text \<open>Lines 168-186, after \<^verbatim>\<open>xml.Unmarshal\<close> has filled \<^verbatim>\<open>instantaneousDemand\<close>.\<close>

definition powerValue :: "int \<Rightarrow> int \<Rightarrow> int \<Rightarrow> float64" where
  "powerValue i mult dv =
     f64_mul (f64_div (f64_mul (f64_of_int (int32 i)) (f64_of_int mult)) (f64_of_int dv))
       (Finite False 1000)"

definition handleInstantaneousDemand :: "(float64 \<Rightarrow> int) \<Rightarrow> state \<Rightarrow> step" where
  "handleInstantaneousDemand impl st =
     (let r = instantaneousDemand st in
      if \<not> validInstantaneousDemand r then Next st
      else
        (case ParseInt (Demand r) 0 64 of
           (i, Some e) \<Rightarrow> Fatal ErrorParsingXML st
         | (i, None) \<Rightarrow>
        (case ParseInt (InstantaneousDemand.Multiplier r) 0 64 of
           (mult, Some e) \<Rightarrow> Fatal ErrorParsingXML st
         | (mult, None) \<Rightarrow>
        (case ParseInt (InstantaneousDemand.Divisor r) 0 64 of
           (dv, Some e) \<Rightarrow> Fatal ErrorParsingXML st
         | (dv, None) \<Rightarrow>
             (let d = Sprintf_v (f64_to_int impl (powerValue i mult dv))
              in Next (publishPower d (st\<lparr>demand := d\<rparr>)))))))"

text \<open>Lines 189-212, after \<^verbatim>\<open>xml.Unmarshal\<close> has filled \<^verbatim>\<open>currentSummationDelivered\<close>.\<close>

definition energyValue :: "int \<Rightarrow> int \<Rightarrow> int \<Rightarrow> float64" where
  "energyValue d mult dv = f64_div (f64_mul (f64_of_int (int32 d)) (f64_of_int mult)) (f64_of_int dv)"

definition handleCurrentSummationDelivered :: "state \<Rightarrow> step" where
  "handleCurrentSummationDelivered st =
     (let r = currentSummationDelivered st in
      if \<not> validCurrentSummationDelivered r then Next st
      else
        (case ParseInt (SummationDelivered r) 0 64 of
           (d, Some e) \<Rightarrow> Fatal ErrorParsingXML st
         | (d, None) \<Rightarrow>
        (case ParseInt (SummationReceived r) 0 64 of
           (rc, Some e) \<Rightarrow> Fatal ErrorParsingXML st
         | (rc, None) \<Rightarrow>
        (case ParseInt (CurrentSummationDelivered.Multiplier r) 0 64 of
           (mult, Some e) \<Rightarrow> Fatal ErrorParsingXML st
         | (mult, None) \<Rightarrow>
        (case ParseInt (CurrentSummationDelivered.Divisor r) 0 64 of
           (dv, Some e) \<Rightarrow> Fatal ErrorParsingXML st
         | (dv, None) \<Rightarrow>
             (let dl = Sprintf_3f (energyValue d mult dv);
                  rv = Sprintf_3f (energyValue rc mult dv)
              in Next (publishEnergy dl rv (st\<lparr>delivered := dl, received := rv\<rparr>))))))))"

text \<open>The body of the loop, on the token \<^verbatim>\<open>scanner.Text()\<close>.\<close>

definition processFrame :: "(float64 \<Rightarrow> int) \<Rightarrow> state \<Rightarrow> string \<Rightarrow> step" where
  "processFrame impl st text =
     (if length text < 2 then Fatal IndexOutOfRange st
      else if text ! 1 = CHR ''I'' then
        handleInstantaneousDemand impl
          (st\<lparr>instantaneousDemand :=
             xmlUnmarshal ''InstantaneousDemand'' setInstantaneousDemand text
               (instantaneousDemand st)\<rparr>)
      else if text ! 1 = CHR ''C'' then
        handleCurrentSummationDelivered
          (st\<lparr>currentSummationDelivered :=
             xmlUnmarshal ''CurrentSummationDelivered'' setCurrentSummationDelivered text
               (currentSummationDelivered st)\<rparr>)
      else if text ! 1 = CHR ''T'' then Next st
      else Fatal UnexpectedCase st)"

definition loop_measure :: "Scanner \<Rightarrow> nat" where
  "loop_measure s = length (pending s) + reader_size (rdr s)"

lemma readLoop_size:
  "readLoop loop cap rd = (bytes, e, rd') \<Longrightarrow> length bytes + reader_size rd' \<le> reader_size rd"
proof (induction loop cap rd arbitrary: bytes e rd' rule: readLoop.induct)
  case (1 loop cap rd)
  obtain b1 e1 r1 where R: "Read rd cap = (b1, e1, r1)"
    by (cases "Read rd cap") auto
  have le: "length b1 + reader_size r1 \<le> reader_size rd"
    using R by (auto simp: Read_def reader_size_def split: list.splits if_splits)
  show ?case
  proof (cases "e1 = None \<and> b1 = [] \<and> \<not> loop + 1 > maxConsecutiveEmptyReads")
    case True
    then have rec: "readLoop (loop + 1) cap r1 = (bytes, e, rd')"
      using "1.prems" R by simp
    have "length bytes + reader_size rd' \<le> reader_size r1"
      using "1.IH"[OF R[symmetric] refl _ _ _ rec] True by simp
    with le show ?thesis by simp
  next
    case False
    then have "bytes = b1 \<and> rd' = r1"
      using "1.prems" R by (auto split: if_splits)
    with le show ?thesis by simp
  qed
qed

lemma splitFunc_advance:
  "splitFunc d b = (n, Some tok) \<Longrightarrow> 16 \<le> n \<and> tok = take n d"
  by (auto simp: splitFunc_def split: option.splits)

lemma splitFunc_None:
  "splitFunc d b = (n, None) \<Longrightarrow> n = 0"
  by (auto simp: splitFunc_def split: option.splits)

lemma scanIter_Inr_measure:
  assumes "scanIter s = Inr s'"
  shows "loop_measure s' \<le> loop_measure s"
proof -
  obtain n token where t: "trySplit s = (n, token)"
    by (cases "trySplit s") auto
  let ?a = "advance s n"
  let ?g = "growBuffer (shiftData ?a)"
  from assms t have s': "s' = readMore ?g"
    by (simp add: scanIter_def fillBuffer_def Let_def split: if_splits)
  obtain bytes e rd' where rl: "readLoop 0 (buf_len ?g - buf_end ?g) (rdr ?g) = (bytes, e, rd')"
    by (cases "readLoop 0 (buf_len ?g - buf_end ?g) (rdr ?g)") auto
  have g: "pending ?g = drop n (pending s)" "rdr ?g = rdr s"
    by (simp_all add: growBuffer_def shiftData_def advance_def)
  from readLoop_size[OF rl] have "length bytes + reader_size rd' \<le> reader_size (rdr s)"
    using g by simp
  then show ?thesis
    using s' rl g by (simp add: loop_measure_def readMore_def)
qed

lemma scanIter_token_measure:
  assumes "scanIter s = Inl (Some tok, s')"
  shows "loop_measure s' < loop_measure s"
proof -
  obtain n token where t: "trySplit s = (n, token)"
    by (cases "trySplit s") auto
  have nofill: "fillBuffer x \<noteq> Inl (Some tok, s')" for x
    by (simp add: fillBuffer_def Let_def)
  from assms t nofill have s': "s' = advance s n" and le: "n \<le> length (pending s)"
    and tk: "token = Some tok"
    by (auto simp: scanIter_def split: if_splits)
  from t tk have "splitFunc (pending s) (err s \<noteq> None) = (n, Some tok)"
    by (simp add: trySplit_def split: if_splits)
  from splitFunc_advance[OF this] have "16 \<le> n" by simp
  with le s' show ?thesis
    by (simp add: loop_measure_def advance_def)
qed

lemma Scan_token_measure:
  "Scan s = (Some tok, s') \<Longrightarrow> loop_measure s' < loop_measure s"
proof (induction s rule: Scan.induct)
  case (1 s)
  show ?case
  proof (cases "scanIter s")
    case (Inl res)
    with "1.prems" have "scanIter s = Inl (Some tok, s')" by (simp add: Scan.simps)
    then show ?thesis by (rule scanIter_token_measure)
  next
    case (Inr s1)
    with "1.prems" have "Scan s1 = (Some tok, s')" by (simp add: Scan.simps)
    from "1.IH"[OF Inr this] scanIter_Inr_measure[OF Inr] show ?thesis by simp
  qed
qed

text \<open>
  How \<^verbatim>\<open>scanSerial\<close> ends: \<^verbatim>\<open>scanner.Scan()\<close> returned \<^verbatim>\<open>false\<close> and the function
  returns, or the process was ended inside the loop.
\<close>

datatype ending = ScanFalse | Exited fatal

text \<open>
  The loop \<^verbatim>\<open>for scanner.Scan() { ... }\<close>. The result holds the scanner as the loop
  left it, with what the serial port had not yet delivered.
\<close>

function scanLoop :: "(float64 \<Rightarrow> int) \<Rightarrow> state \<Rightarrow> Scanner \<Rightarrow> ending \<times> state \<times> Scanner" where
  "scanLoop impl st s =
     (case Scan s of
        (None, s') \<Rightarrow> (ScanFalse, st, s')
      | (Some text, s') \<Rightarrow>
          (case processFrame impl st text of
             Fatal f st' \<Rightarrow> (Exited f, st', s')
           | Next st' \<Rightarrow> scanLoop impl st' s'))"
  by pat_completeness auto
termination
  by (relation "measure (\<lambda>(impl, st, s). loop_measure s)")
    (auto dest: Scan_token_measure[OF sym])

declare scanLoop.simps [simp del]

definition scanSerial :: "(float64 \<Rightarrow> int) \<Rightarrow> Reader \<Rightarrow> ending \<times> state \<times> Scanner" where
  "scanSerial impl port = scanLoop impl initial_state (NewScanner port)"

section \<open>The frames of a stream\<close>

text \<open>
  The tokens that \<^verbatim>\<open>scanner.Scan()\<close> gives one after the other until it returns
  \<^verbatim>\<open>false\<close>: the frames the loop of \<^verbatim>\<open>scanSerial\<close> sees when nothing ends the
  process before.
\<close>

function tokens :: "Scanner \<Rightarrow> string list" where
  "tokens s = (case Scan s of (None, s') \<Rightarrow> [] | (Some t, s') \<Rightarrow> t # tokens s')"
  by pat_completeness auto
termination
  by (relation "measure loop_measure") (auto dest: Scan_token_measure[OF sym])

declare tokens.simps [simp del]

text \<open>The body of the loop over a list of frames, to the first one that ends the process.\<close>

fun runFrames :: "(float64 \<Rightarrow> int) \<Rightarrow> state \<Rightarrow> string list \<Rightarrow> ending \<times> state" where
  "runFrames impl st [] = (ScanFalse, st)"
| "runFrames impl st (t # ts) =
     (case processFrame impl st t of
        Fatal f st' \<Rightarrow> (Exited f, st')
      | Next st' \<Rightarrow> runFrames impl st' ts)"

definition closing_markers :: "string list" where
  "closing_markers = [closeInstantaneousDemand, closeCurrentSummationDelivered, closeTimeCluster]"

definition has_marker :: "string \<Rightarrow> bool" where
  "has_marker data = list_ex (\<lambda>m. Index data m \<noteq> None) closing_markers"

text \<open>
  A byte sequence that is one complete frame: the split function returns all of it, and
  returns nothing on each shorter prefix of it.
\<close>

definition one_frame :: "string \<Rightarrow> bool" where
  "one_frame f =
     (snd (splitFunc f False) = Some f \<and>
      list_all (\<lambda>n. snd (splitFunc (take n f) False) = None) [0..<length f])"

section \<open>The power conversion, in the words of the specification\<close>

text \<open>
  \<open>round(demand_i32 * multiplier / divisor * 1000)\<close>, in exact arithmetic, rounded to
  the nearest integer.
\<close>

definition spec_power :: "int \<Rightarrow> int \<Rightarrow> int \<Rightarrow> int" where
  "spec_power i mult dv = round (of_int (int32 i) * of_int mult / of_int dv * 1000 :: rat)"

section \<open>Example streams\<close>

definition tc_frame :: string where
  "tc_frame = ''<TimeCluster>'' @ [CR, LF] @ ''</TimeCluster>'' @ [CR, LF]"

definition demand_frame :: string where
  "demand_frame =
     ''<InstantaneousDemand><Demand>0x2</Demand><Multiplier>0x1</Multiplier>'' @
     ''<Divisor>0x3</Divisor></InstantaneousDemand>'' @ [CR, LF]"

definition price_frame :: string where
  "price_frame = ''<PriceCluster>'' @ [CR, LF] @ ''</TimeCluster>'' @ [CR, LF]"

text \<open>A demand record without the element \<^verbatim>\<open>Demand\<close>.\<close>

definition partial_frame :: string where
  "partial_frame =
     ''<InstantaneousDemand><Multiplier>0x1</Multiplier>'' @
     ''<Divisor>0x1</Divisor></InstantaneousDemand>'' @ [CR, LF]"

text \<open>The record that \<^verbatim>\<open>xml.Unmarshal\<close> makes of \<open>demand_frame\<close>.\<close>

definition demand_record :: InstantaneousDemand where
  "demand_record =
     zeroInstantaneousDemand
       \<lparr>InstantaneousDemand.XMLName := ''InstantaneousDemand'', Demand := ''0x2'',
        InstantaneousDemand.Multiplier := ''0x1'', InstantaneousDemand.Divisor := ''0x3''\<rparr>"

definition after_demand_frame :: state where
  "after_demand_frame =
     initial_state\<lparr>instantaneousDemand := demand_record, demand := ''666'',
       published := [(power_topic, ''666'')]\<rparr>"

text \<open>The same record after \<open>partial_frame\<close>: the field \<^verbatim>\<open>Demand\<close> is left over.\<close>

definition stale_record :: InstantaneousDemand where
  "stale_record =
     zeroInstantaneousDemand
       \<lparr>InstantaneousDemand.XMLName := ''InstantaneousDemand'', Demand := ''0x2'',
        InstantaneousDemand.Multiplier := ''0x1'', InstantaneousDemand.Divisor := ''0x1''\<rparr>"

text \<open>Hexadecimal digits without the prefix \<^verbatim>\<open>0x\<close>.\<close>

definition bare_hex_record :: InstantaneousDemand where
  "bare_hex_record =
     zeroInstantaneousDemand
       \<lparr>Demand := ''FF'', InstantaneousDemand.Multiplier := ''1'',
        InstantaneousDemand.Divisor := ''1''\<rparr>"

definition reverse_flow_record :: InstantaneousDemand where
  "reverse_flow_record =
     zeroInstantaneousDemand
       \<lparr>Demand := ''0xFFFFFFFF'', InstantaneousDemand.Multiplier := ''1'',
        InstantaneousDemand.Divisor := ''1''\<rparr>"

definition milliwatt_record :: InstantaneousDemand where
  "milliwatt_record =
     zeroInstantaneousDemand
       \<lparr>Demand := ''0x3ed'', InstantaneousDemand.Multiplier := ''0x1'',
        InstantaneousDemand.Divisor := ''0x3e8''\<rparr>"

definition zero_divisor_demand :: InstantaneousDemand where
  "zero_divisor_demand =
     zeroInstantaneousDemand
       \<lparr>Demand := ''0x5'', InstantaneousDemand.Multiplier := ''0x1'',
        InstantaneousDemand.Divisor := ''00000000''\<rparr>"

definition summation_record :: CurrentSummationDelivered where
  "summation_record =
     zeroCurrentSummationDelivered
       \<lparr>SummationDelivered := ''0x0000270F'', SummationReceived := ''0x00000000'',
        Multiplier := ''1'', Divisor := ''1000''\<rparr>"

definition zero_divisor_summation :: CurrentSummationDelivered where
  "zero_divisor_summation =
     zeroCurrentSummationDelivered
       \<lparr>SummationDelivered := ''0x0000270F'', SummationReceived := ''0x00000000'',
        Multiplier := ''0x1'', Divisor := ''00000000''\<rparr>"

section \<open>Properties of the split function and of the scanner\<close>

lemma Index_bound:
  "Index s sub = Some i \<Longrightarrow> i + length sub \<le> length s"
proof (induction s arbitrary: i)
  case Nil
  then show ?case by (simp split: if_splits)
next
  case (Cons c cs)
  show ?case
  proof (cases "prefix sub (c # cs)")
    case True
    with Cons.prems show ?thesis by (auto dest: prefix_length_le)
  next
    case False
    with Cons.prems obtain j where "Index cs sub = Some j" "i = Suc j" by auto
    with Cons.IH show ?thesis by fastforce
  qed
qed

lemma Index_occurs:
  "Index s sub = Some i \<Longrightarrow> take (length sub) (drop i s) = sub"
proof (induction s arbitrary: i)
  case Nil
  then show ?case by (simp split: if_splits)
next
  case (Cons c cs)
  show ?case
  proof (cases "prefix sub (c # cs)")
    case True
    with Cons.prems have "i = 0" by simp
    with True show ?thesis by (auto simp: prefix_def)
  next
    case False
    with Cons.prems obtain j where "Index cs sub = Some j" "i = Suc j" by auto
    with Cons.IH show ?thesis by simp
  qed
qed

lemma Index_suffix:
  assumes "Index s sub = Some i"
  shows "suffix sub (take (i + length sub) s)"
proof -
  have "take (i + length sub) s = take i s @ take (length sub) (drop i s)"
    by (simp add: take_add)
  with Index_occurs[OF assms] show ?thesis
    by (simp add: suffix_def)
qed

lemma marker_lengths:
  "length closeInstantaneousDemand = 24"
  "length closeCurrentSummationDelivered = 30"
  "length closeTimeCluster = 16"
  by (simp_all add: closeInstantaneousDemand_def closeCurrentSummationDelivered_def
      closeTimeCluster_def)

lemma splitFunc_token:
  assumes "splitFunc d b = (n, Some t)"
  shows "t = take n d \<and> n \<le> length d \<and> (\<exists>m \<in> set closing_markers. suffix m t \<and> length m \<le> n)"
proof -
  consider
    (a) i where "Index d closeInstantaneousDemand = Some i" "n = i + 24" "t = take (i + 24) d"
  | (b) i where "Index d closeCurrentSummationDelivered = Some i" "n = i + 30" "t = take (i + 30) d"
  | (c) i where "Index d closeTimeCluster = Some i" "n = i + 16" "t = take (i + 16) d"
    using assms by (auto simp: splitFunc_def split: option.splits)
  then show ?thesis
  proof cases
    case a
    with Index_bound[OF a(1)] Index_suffix[OF a(1)] show ?thesis
      by (auto simp: marker_lengths closing_markers_def)
  next
    case b
    with Index_bound[OF b(1)] Index_suffix[OF b(1)] show ?thesis
      by (auto simp: marker_lengths closing_markers_def)
  next
    case c
    with Index_bound[OF c(1)] Index_suffix[OF c(1)] show ?thesis
      by (auto simp: marker_lengths closing_markers_def)
  qed
qed

lemma splitFunc_no_marker:
  "\<not> has_marker d \<Longrightarrow> splitFunc d b = (0, None)"
  by (simp add: has_marker_def closing_markers_def splitFunc_def)

lemma splitFunc_atEOF: "splitFunc d b = splitFunc d b'"
  by (simp add: splitFunc_def)

definition unread :: "Scanner \<Rightarrow> string" where
  "unread s = pending s @ concat (rdr s)"

lemma readLoop_concat:
  "readLoop loop cap rd = (bytes, e, rd') \<Longrightarrow> bytes @ concat rd' = concat rd"
proof (induction loop cap rd arbitrary: bytes e rd' rule: readLoop.induct)
  case (1 loop cap rd)
  obtain b1 e1 r1 where R: "Read rd cap = (b1, e1, r1)"
    by (cases "Read rd cap") auto
  have eq: "b1 @ concat r1 = concat rd"
    using R by (auto simp: Read_def split: list.splits if_splits)
  show ?case
  proof (cases "e1 = None \<and> b1 = [] \<and> \<not> loop + 1 > maxConsecutiveEmptyReads")
    case True
    then have rec: "readLoop (loop + 1) cap r1 = (bytes, e, rd')"
      using "1.prems" R by simp
    have "bytes @ concat rd' = concat r1"
      using "1.IH"[OF R[symmetric] refl _ _ _ rec] True by simp
    with eq True show ?thesis by simp
  next
    case False
    then have "bytes = b1 \<and> rd' = r1"
      using "1.prems" R by (auto split: if_splits)
    with eq show ?thesis by simp
  qed
qed

lemma readMore_unread: "unread (readMore s) = unread s"
proof -
  obtain bytes e rd' where rl: "readLoop 0 (buf_len s - buf_end s) (rdr s) = (bytes, e, rd')"
    by (cases "readLoop 0 (buf_len s - buf_end s) (rdr s)") auto
  from readLoop_concat[OF rl] rl show ?thesis
    by (simp add: unread_def readMore_def)
qed

lemma scanIter_Inr_unread:
  assumes "scanIter s = Inr s'"
  shows "unread s' = unread s"
proof -
  obtain n token where t: "trySplit s = (n, token)"
    by (cases "trySplit s") auto
  from assms t have s': "s' = readMore (growBuffer (shiftData (advance s n)))" and tk: "token = None"
    and e: "err s = None"
    by (auto simp: scanIter_def fillBuffer_def Let_def split: if_splits)
  from t tk have "n = 0"
    by (auto simp: trySplit_def dest: splitFunc_None split: if_splits)
  then have "unread (growBuffer (shiftData (advance s n))) = unread s"
    by (simp add: unread_def growBuffer_def shiftData_def advance_def)
  with s' show ?thesis by (simp add: readMore_unread)
qed

lemma scanIter_token:
  assumes "scanIter s = Inl (Some t, s')"
  shows "unread s = t @ unread s' \<and> (\<exists>m \<in> set closing_markers. suffix m t \<and> length m \<le> length t)"
proof -
  obtain n token where tr: "trySplit s = (n, token)"
    by (cases "trySplit s") auto
  have nofill: "fillBuffer x \<noteq> Inl (Some t, s')" for x
    by (simp add: fillBuffer_def Let_def)
  from assms tr nofill have s': "s' = advance s n" and le: "n \<le> length (pending s)"
    and tk: "token = Some t"
    by (auto simp: scanIter_def split: if_splits)
  from tr tk have sp: "splitFunc (pending s) (err s \<noteq> None) = (n, Some t)"
    by (simp add: trySplit_def split: if_splits)
  from splitFunc_token[OF sp] have t: "t = take n (pending s)"
    and m: "\<exists>m \<in> set closing_markers. suffix m t \<and> length m \<le> n" by blast+
  have "length t = n" using t le by simp
  with m t s' show ?thesis
    by (auto simp: unread_def advance_def)
qed

lemma Scan_token:
  "Scan s = (Some t, s') \<Longrightarrow>
   unread s = t @ unread s' \<and> (\<exists>m \<in> set closing_markers. suffix m t \<and> length m \<le> length t)"
proof (induction s rule: Scan.induct)
  case (1 s)
  show ?case
  proof (cases "scanIter s")
    case (Inl res)
    with "1.prems" have "scanIter s = Inl (Some t, s')" by (simp add: Scan.simps)
    then show ?thesis by (rule scanIter_token)
  next
    case (Inr s1)
    with "1.prems" have "Scan s1 = (Some t, s')" by (simp add: Scan.simps)
    from "1.IH"[OF Inr this] scanIter_Inr_unread[OF Inr] show ?thesis by simp
  qed
qed

lemma tokens_frames:
  "prefix (concat (tokens s)) (unread s) \<and>
   (\<forall>t \<in> set (tokens s). \<exists>m \<in> set closing_markers. suffix m t \<and> length m \<le> length t)"
proof (induction s rule: tokens.induct)
  case (1 s)
  obtain r s' where sc: "Scan s = (r, s')" by (cases "Scan s") auto
  show ?case
  proof (cases r)
    case None
    with sc show ?thesis by (simp add: tokens.simps)
  next
    case (Some t)
    with sc have tk: "tokens s = t # tokens s'" by (simp add: tokens.simps)
    from Scan_token[OF sc[unfolded Some]] "1.IH"[OF sc[symmetric, unfolded Some] refl]
    show ?thesis by (auto simp: tk)
  qed
qed

lemma one_frame_split:
  assumes "one_frame f"
  shows "splitFunc f b = (length f, Some f)"
    and "k < length f \<Longrightarrow> splitFunc (take k f) b = (0, None)"
    and "16 \<le> length f"
proof -
  obtain n where sp: "splitFunc f False = (n, Some f)"
    using assms by (cases "splitFunc f False") (auto simp: one_frame_def)
  from splitFunc_token[OF sp] obtain m where
    t: "f = take n f" "n \<le> length f" and m: "m \<in> set closing_markers" "length m \<le> n"
    by blast
  from t have n: "n = length f"
    by (metis length_take min.absorb2)
  with sp show "splitFunc f b = (length f, Some f)"
    using splitFunc_atEOF[of f b False] by simp
  from m have "16 \<le> length m"
    by (auto simp: closing_markers_def marker_lengths)
  with m n show "16 \<le> length f" by simp
  show "splitFunc (take k f) b = (0, None)" if "k < length f"
  proof -
    from assms that have "snd (splitFunc (take k f) False) = None"
      by (simp add: one_frame_def list_all_iff)
    then have "splitFunc (take k f) False = (0, None)"
      by (cases "splitFunc (take k f) False") (auto dest: splitFunc_None)
    then show ?thesis
      using splitFunc_atEOF[of "take k f" b False] by simp
  qed
qed

lemma readLoop_chunk:
  assumes "c \<noteq> []" and "0 < cap"
  shows "readLoop 0 cap (c # cs)
    = (take cap c, None, if length c \<le> cap then cs else drop cap c # cs)"
  using assms by (simp add: Read_def)

lemma concat_empty_chunks:
  "concat xs = [] \<Longrightarrow> [] \<notin> set xs \<Longrightarrow> xs = []"
  by (cases xs) auto

lemma Scan_one_frame:
  assumes one: "one_frame f"
  shows "\<lbrakk>err s = None; start s = 0; pending s = take k f; concat (rdr s) = drop k f;
      [] \<notin> set (rdr s); k \<le> length f; k \<le> buf_len s; 0 < buf_len s;
      buf_len s \<le> MaxScanTokenSize\<rbrakk>
    \<Longrightarrow> (if length f \<le> MaxScanTokenSize
         then \<exists>s'. Scan s = (Some f, s') \<and> rdr s' = [] \<and> pending s' = [] \<and> err s' = None
         else fst (Scan s) = None)"
proof (induction s arbitrary: k rule: Scan.induct)
  case (1 s)
  note F = one_frame_split[OF one]
  note e = \<open>err s = None\<close> and st = \<open>start s = 0\<close> and p = \<open>pending s = take k f\<close>
    and r = \<open>concat (rdr s) = drop k f\<close> and ne = \<open>[] \<notin> set (rdr s)\<close>
    and kf = \<open>k \<le> length f\<close> and kb = \<open>k \<le> buf_len s\<close> and b0 = \<open>0 < buf_len s\<close>
    and bm = \<open>buf_len s \<le> MaxScanTokenSize\<close>
  show ?case
  proof (cases "k = length f")
    case True
    then have pf: "pending s = f" using p by simp
    have "f \<noteq> []" using F(3) by auto
    with pf F(1)[of False] e have "trySplit s = (length f, Some f)"
      by (simp add: trySplit_def)
    with pf have "scanIter s = Inl (Some f, advance s (length f))"
      by (simp add: scanIter_def)
    then have sc: "Scan s = (Some f, advance s (length f))"
      by (simp add: Scan.simps)
    have "rdr s = []"
      using r True ne by (auto intro: concat_empty_chunks)
    moreover have "length f \<le> MaxScanTokenSize" using True kb bm by simp
    ultimately show ?thesis
      using sc pf e by (simp add: advance_def)
  next
    case False
    with kf have lt: "k < length f" by simp
    have ts: "trySplit s = (0, None)"
    proof (cases "pending s = []")
      case True
      with e show ?thesis by (simp add: trySplit_def)
    next
      case False
      with e p F(2)[OF lt, of False] show ?thesis by (simp add: trySplit_def)
    qed
    have adv: "advance s 0 = s" by (simp add: advance_def)
    have sh: "shiftData s = s" using st by (simp add: shiftData_def)
    have be: "buf_end s = k" using st p lt by (simp add: buf_end_def)
    show ?thesis
    proof (cases "k = buf_len s \<and> buf_len s \<ge> MaxScanTokenSize")
      case True
      then have "scanIter s = Inl (None, setErr s ErrTooLong)"
        using ts adv sh be e by (simp add: scanIter_def fillBuffer_def)
      then have "fst (Scan s) = None" by (simp add: Scan.simps)
      moreover have "\<not> length f \<le> MaxScanTokenSize" using True lt by simp
      ultimately show ?thesis by simp
    next
      case False
      let ?g = "growBuffer s"
      let ?cap = "buf_len ?g - buf_end ?g"
      have g: "rdr ?g = rdr s" "pending ?g = pending s" "err ?g = None" "start ?g = 0"
        "buf_end ?g = k"
        using e st be by (simp_all add: growBuffer_def buf_end_def)
      have gb: "k < buf_len ?g" "buf_len ?g \<le> MaxScanTokenSize" "0 < buf_len ?g"
        using False kb bm b0 be by (auto simp: growBuffer_def)
      then have cap: "0 < ?cap" using g by simp
      have "drop k f \<noteq> []" using lt by simp
      with r obtain c cs where rd: "rdr s = c # cs"
        by (cases "rdr s") auto
      with ne have c: "c \<noteq> []" by auto
      let ?rest = "if length c \<le> ?cap then cs else drop ?cap c # cs"
      let ?s1 = "?g\<lparr>rdr := ?rest, pending := pending s @ take ?cap c, err := None\<rparr>"
      have rm: "readMore ?g = ?s1"
        using readLoop_chunk[OF c cap, of cs] rd g by (simp add: readMore_def)
      have it: "scanIter s = Inr ?s1"
        using ts adv sh be e False rm by (simp add: scanIter_def fillBuffer_def)
      let ?n = "min ?cap (length c)"
      have dk: "drop k f = c @ concat cs" using r rd by simp
      have tk: "take ?cap c = take ?n (drop k f)" using dk by (simp add: min_def)
      have p1: "pending ?s1 = take (k + ?n) f"
        using p tk by (simp add: take_add)
      have r1: "concat (rdr ?s1) = drop (k + ?n) f"
      proof (cases "length c \<le> ?cap")
        case True
        then have "concat ?rest = drop (length c) (drop k f)" using dk by simp
        with True show ?thesis by (simp add: min_def add.commute)
      next
        case False
        then have "concat ?rest = drop ?cap (drop k f)" using dk by simp
        with False show ?thesis by (simp add: min_def add.commute)
      qed
      have ne1: "[] \<notin> set (rdr ?s1)" using ne rd by auto
      have "length c \<le> length (drop k f)" using dk by simp
      then have lc: "length c \<le> length f - k" by simp
      have kf1: "k + ?n \<le> length f" using lc lt by arith
      have kb1: "k + ?n \<le> buf_len ?s1" using gb g by simp
      have res: "if length f \<le> MaxScanTokenSize
         then \<exists>s'. Scan ?s1 = (Some f, s') \<and> rdr s' = [] \<and> pending s' = [] \<and> err s' = None
         else fst (Scan ?s1) = None"
        using "1.IH"[OF it _ _ p1 r1 ne1 kf1 kb1] g gb by simp
      have "Scan s = Scan ?s1" using it by (simp add: Scan.simps)
      with res show ?thesis by simp
    qed
  qed
qed

lemma splitFunc_empty: "splitFunc [] b = (0, None)"
  by (simp add: splitFunc_def closeInstantaneousDemand_def closeCurrentSummationDelivered_def
      closeTimeCluster_def)

lemma Scan_at_error:
  assumes "err s \<noteq> None" and "pending s = []"
  shows "fst (Scan s) = None"
proof -
  have "trySplit s = (0, None)"
    using assms by (simp add: trySplit_def splitFunc_empty)
  then have "scanIter s = Inl (None, (advance s 0)\<lparr>start := 0, pending := []\<rparr>)"
    using assms by (simp add: scanIter_def)
  then show ?thesis by (simp add: Scan.simps)
qed

lemma Scan_exhausted:
  assumes "pending s = []" and "rdr s = []" and "err s = None"
  shows "fst (Scan s) = None"
proof -
  have ts: "trySplit s = (0, None)"
    using assms by (simp add: trySplit_def)
  have adv: "advance s 0 = s" by (simp add: advance_def)
  let ?s2 = "shiftData s"
  show ?thesis
  proof (cases "buf_end ?s2 = buf_len ?s2 \<and> buf_len ?s2 \<ge> MaxScanTokenSize")
    case True
    then have "scanIter s = Inl (None, setErr ?s2 ErrTooLong)"
      using ts adv assms by (simp add: scanIter_def fillBuffer_def Let_def)
    then show ?thesis by (simp add: Scan.simps)
  next
    case False
    let ?g = "growBuffer ?s2"
    have g: "rdr ?g = []" "pending ?g = []"
      using assms by (simp_all add: growBuffer_def shiftData_def)
    have "readLoop 0 (buf_len ?g - buf_end ?g) [] = ([], Some EOF, [])"
      by (simp add: Read_def)
    then have rm: "readMore ?g = ?g\<lparr>rdr := [], pending := [], err := Some EOF\<rparr>"
      using g by (simp add: readMore_def)
    have "scanIter s = Inr (readMore ?g)"
      using ts adv assms False by (simp add: scanIter_def fillBuffer_def Let_def)
    then have "Scan s = Scan (readMore ?g)" by (simp add: Scan.simps)
    moreover have "fst (Scan (readMore ?g)) = None"
      by (rule Scan_at_error) (simp_all add: rm)
    ultimately show ?thesis by simp
  qed
qed

lemma tokens_one_frame:
  assumes "one_frame f" and "concat chunks = f" and "[] \<notin> set chunks"
  shows "tokens (NewScanner chunks) = (if length f \<le> MaxScanTokenSize then [f] else [])"
proof -
  let ?s = "NewScanner chunks"
  have res: "if length f \<le> MaxScanTokenSize
      then \<exists>s'. Scan ?s = (Some f, s') \<and> rdr s' = [] \<and> pending s' = [] \<and> err s' = None
      else fst (Scan ?s) = None"
    by (rule Scan_one_frame[OF assms(1), where k = 0])
      (use assms in \<open>simp_all add: NewScanner_def MaxScanTokenSize_def\<close>)
  show ?thesis
  proof (cases "length f \<le> MaxScanTokenSize")
    case True
    with res obtain s' where sc: "Scan ?s = (Some f, s')"
      and s': "rdr s' = []" "pending s' = []" "err s' = None" by auto
    from Scan_exhausted[OF s'(2) s'(1) s'(3)] have "tokens s' = []"
      by (cases "Scan s'") (simp add: tokens.simps)
    with sc True show ?thesis
      by (simp add: tokens.simps[of ?s])
  next
    case False
    with res have "fst (Scan ?s) = None" by simp
    then have "tokens ?s = []"
      by (cases "Scan ?s") (simp add: tokens.simps)
    with False show ?thesis by simp
  qed
qed

lemma scanLoop_runFrames:
  "(fst (scanLoop impl st s), fst (snd (scanLoop impl st s))) = runFrames impl st (tokens s)"
proof (induction impl st s rule: scanLoop.induct)
  case (1 impl st s)
  obtain r s' where sc: "Scan s = (r, s')" by (cases "Scan s") auto
  show ?case
  proof (cases r)
    case None
    with sc show ?thesis
      by (simp add: scanLoop.simps[of impl st s] tokens.simps[of s])
  next
    case (Some t)
    note sc' = sc[unfolded Some]
    show ?thesis
    proof (cases "processFrame impl st t")
      case (Next st')
      from "1.IH"[OF sc'[symmetric] refl Next] sc' Next show ?thesis
        by (simp add: scanLoop.simps[of impl st s] tokens.simps[of s])
    next
      case (Fatal c st')
      with sc' show ?thesis
        by (simp add: scanLoop.simps[of impl st s] tokens.simps[of s])
    qed
  qed
qed

lemma Index_prefix_mono:
  "Index a m = Some i \<Longrightarrow> prefix a b \<Longrightarrow> Index b m = Some i"
proof (induction a arbitrary: b i)
  case Nil
  then have "m = []" "i = 0" by (auto split: if_splits)
  then show ?case by (cases b) simp_all
next
  case (Cons x xs)
  from Cons.prems(2) obtain ys where b: "b = x # ys" and pre: "prefix xs ys"
    by (cases b) auto
  show ?case
  proof (cases "prefix m (x # xs)")
    case True
    with Cons.prems(1) have "i = 0" by simp
    moreover from True Cons.prems(2) have "prefix m b"
      by (rule prefix_order.trans)
    ultimately show ?thesis using b by simp
  next
    case False
    with Cons.prems(1) obtain j where j: "Index xs m = Some j" "i = Suc j" by auto
    from Index_bound[OF j(1)] have len: "length m \<le> length (x # xs)" by simp
    have "\<not> prefix m (x # ys)"
    proof
      assume "prefix m (x # ys)"
      then have "prefix m b" using b by simp
      from prefix_length_prefix[OF this Cons.prems(2) len] have "prefix m (x # xs)" .
      with False show False by simp
    qed
    with Cons.IH[OF j(1) pre] j b show ?thesis by simp
  qed
qed

lemma has_marker_prefix_mono:
  "has_marker a \<Longrightarrow> prefix a b \<Longrightarrow> has_marker b"
  by (auto simp: has_marker_def list_ex_iff dest: Index_prefix_mono)

lemma one_frameI:
  assumes "snd (splitFunc f False) = Some f" and "\<not> has_marker (butlast f)"
  shows "one_frame f"
proof -
  have "snd (splitFunc (take n f) False) = None" if "n < length f" for n
  proof -
    have "take n (butlast f) = take n f"
      using that by (rule take_butlast)
    then have "prefix (take n f) (butlast f)"
      by (metis take_is_prefix)
    with assms(2) have "\<not> has_marker (take n f)"
      by (auto dest: has_marker_prefix_mono)
    then show ?thesis by (simp add: splitFunc_no_marker)
  qed
  with assms(1) show ?thesis
    by (simp add: one_frame_def list_all_iff)
qed

subsection \<open>Rounding to binary64\<close>

lemma floor_rat_numeral_div [simp]:
  "\<lfloor>numeral a / numeral b :: rat\<rfloor> = numeral a div numeral b"
  by (metis floor_divide_of_int_eq of_int_numeral)

lemma log2_nat_numeral [simp]:
  "log2_nat 0 = 0"
  "log2_nat (Suc 0) = 0"
  "log2_nat 1 = 0"
  "log2_nat (numeral k) = (if numeral k < (2::nat) then 0 else Suc (log2_nat (numeral k div 2)))"
  by (simp_all add: log2_nat.simps[of 0] log2_nat.simps[of "Suc 0"] log2_nat.simps[of "numeral k"])

lemma log2_nat_bounds:
  "0 < n \<Longrightarrow> 2 ^ log2_nat n \<le> n \<and> n < 2 ^ Suc (log2_nat n)"
proof (induction n rule: log2_nat.induct)
  case (1 n)
  show ?case
  proof (cases "n < 2")
    case True
    with "1.prems" show ?thesis by (simp add: log2_nat.simps[of n])
  next
    case False
    then have "0 < n div 2" by simp
    from "1.IH"[OF False this] have "2 ^ log2_nat (n div 2) \<le> n div 2"
      and "n div 2 < 2 ^ Suc (log2_nat (n div 2))" by simp_all
    then have "2 * 2 ^ log2_nat (n div 2) \<le> n" and "n < 2 * 2 ^ Suc (log2_nat (n div 2))"
      by linarith+
    with False show ?thesis by (simp add: log2_nat.simps[of n])
  qed
qed

lemma pow2_pos: "0 < pow2 e"
  by (simp add: pow2_def)

lemma pow2_neg: "pow2 (- int k) = 1 / 2 ^ k"
  by (auto simp: pow2_def)

lemma pow2_mono: "a \<le> b \<Longrightarrow> pow2 a \<le> pow2 b"
proof -
  assume ab: "a \<le> b"
  have eq: "pow2 e = 2 powi e" for e
    by (simp add: pow2_def power_int_def field_simps)
  show ?thesis
    unfolding eq using ab by (simp add: power_int_increasing)
qed

lemma floor_log2_le:
  assumes "0 < q"
  shows "pow2 (floor_log2 q) \<le> q"
proof (cases "1 \<le> q")
  case True
  then have n: "0 < nat \<lfloor>q\<rfloor>" by simp
  from log2_nat_bounds[OF n] have "2 ^ log2_nat (nat \<lfloor>q\<rfloor>) \<le> nat \<lfloor>q\<rfloor>" by simp
  then have "(of_nat (2 ^ log2_nat (nat \<lfloor>q\<rfloor>)) :: rat) \<le> of_nat (nat \<lfloor>q\<rfloor>)"
    by (simp only: of_nat_le_iff)
  then have "(2::rat) ^ log2_nat (nat \<lfloor>q\<rfloor>) \<le> of_nat (nat \<lfloor>q\<rfloor>)"
    by simp
  also have "\<dots> \<le> q" using True by simp
  finally show ?thesis using True by (simp add: floor_log2_def pow2_def)
next
  case False
  let ?r = "1 / q"
  let ?k = "log2_nat (nat \<lfloor>?r\<rfloor>)"
  have r1: "1 < ?r" using False assms by simp
  then have n: "0 < nat \<lfloor>?r\<rfloor>" by simp
  show ?thesis
  proof (cases "?r = 2 ^ ?k")
    case True
    then have "q = 1 / 2 ^ ?k" using assms by (simp add: field_simps)
    with False True show ?thesis by (simp add: floor_log2_def pow2_neg Let_def)
  next
    case neq: False
    from log2_nat_bounds[OF n] have "nat \<lfloor>?r\<rfloor> < 2 ^ Suc ?k" by simp
    then have "\<lfloor>?r\<rfloor> < int (2 ^ Suc ?k)"
      using n by linarith
    then have "?r < of_int (int (2 ^ Suc ?k))"
      by (simp only: floor_less_iff)
    then have "?r < 2 ^ Suc ?k"
      by simp
    then have "1 / 2 ^ Suc ?k \<le> q" using assms by (simp add: field_simps)
    moreover have "floor_log2 q = - int (Suc ?k)"
      using False neq by (simp add: floor_log2_def Let_def)
    then have "pow2 (floor_log2 q) = 1 / 2 ^ Suc ?k"
      by (simp only: pow2_neg)
    ultimately show ?thesis by simp
  qed
qed

lemma round_half_even_bounds:
  "of_int (round_half_even x) \<le> x + 1 / 2 \<and> x - 1 / 2 \<le> of_int (round_half_even x)"
proof -
  define f where "f = \<lfloor>x\<rfloor>"
  have f: "of_int f \<le> x" "x < of_int f + 1"
    unfolding f_def by linarith+
  have "round_half_even x =
      (if x - of_int f < 1 / 2 then f
       else if x - of_int f > 1 / 2 then f + 1 else if even f then f else f + 1)"
    by (simp add: round_half_even_def Let_def f_def)
  with f show ?thesis
    by (auto split: if_splits)
qed

text \<open>
  The result of rounding a positive magnitude: it is finite when the magnitude is below
  \<open>2 ^ 1000\<close>, and it is at least half of a magnitude that is 1 or more.
\<close>

lemma round_f64_finite:
  assumes "0 \<le> q" and "q \<le> 2 ^ 1000"
  shows "\<exists>v. round_f64 sg q = Finite sg v \<and> 0 \<le> v \<and> v \<le> 2 * q + 1 \<and> (1 \<le> q \<longrightarrow> q \<le> 2 * v)"
proof (cases "q = 0")
  case True
  then show ?thesis by (simp add: round_f64_def)
next
  case False
  with assms have q: "0 < q" by simp
  let ?e = "max (floor_log2 q - 52) (- 1074)"
  let ?m = "round_half_even (q / pow2 ?e)"
  let ?v = "of_int ?m * pow2 ?e"
  have pe: "0 < pow2 ?e" by (rule pow2_pos)
  have e1: "pow2 ?e \<le> max q 1"
  proof (cases "floor_log2 q - 52 \<le> - 1074")
    case True
    then have "?e = - 1074" by simp
    then have "pow2 ?e \<le> 1" by (simp add: pow2_def)
    then show ?thesis by simp
  next
    case False
    then have "?e = floor_log2 q - 52" by simp
    then have "pow2 ?e \<le> pow2 (floor_log2 q)" by (simp add: pow2_mono)
    with floor_log2_le[OF q] show ?thesis by simp
  qed
  from round_half_even_bounds[of "q / pow2 ?e"]
  have up: "of_int ?m \<le> q / pow2 ?e + 1 / 2" and lo: "q / pow2 ?e - 1 / 2 \<le> of_int ?m"
    by simp_all
  have "?v \<le> (q / pow2 ?e + 1 / 2) * pow2 ?e"
    using up pe by (simp add: mult_right_mono)
  also have "\<dots> = q + pow2 ?e / 2" using pe by (simp add: field_simps)
  finally have vup: "?v \<le> q + pow2 ?e / 2" .
  have "(q / pow2 ?e - 1 / 2) * pow2 ?e \<le> ?v"
    using lo pe by (simp add: mult_right_mono)
  moreover have "(q / pow2 ?e - 1 / 2) * pow2 ?e = q - pow2 ?e / 2"
    using pe by (simp add: field_simps)
  ultimately have vlo: "q - pow2 ?e / 2 \<le> ?v" by simp
  have m0: "0 \<le> ?m"
  proof -
    have "0 \<le> q / pow2 ?e" using q pe by simp
    then have "(0::int) \<le> \<lfloor>q / pow2 ?e\<rfloor>" by simp
    then show ?thesis by (auto simp: round_half_even_def Let_def)
  qed
  then have v0: "0 \<le> ?v" using pe by simp
  have v2: "?v \<le> 2 * q + 1" using vup e1 q by (auto simp: max_def split: if_splits)
  have "2 * q + 1 < (2::rat) ^ 1024"
  proof -
    have "2 * q + 1 \<le> 2 * 2 ^ 1000 + (1::rat)" using assms(2) by simp
    also have "\<dots> < 2 ^ 1024" by simp
    finally show ?thesis .
  qed
  with v2 have fin: "\<not> ?v \<ge> 2 ^ 1024" by simp
  have half: "q \<le> 2 * ?v" if "1 \<le> q"
  proof -
    from that e1 have "pow2 ?e \<le> q" by (simp add: max_def)
    with vlo show ?thesis by simp
  qed
  have "round_f64 sg q = Finite sg ?v"
    using False fin by (simp add: round_f64_def Let_def)
  with v0 v2 half show ?thesis by blast
qed

subsection \<open>Formatting\<close>

lemma showNat_numeral [simp]:
  "showNat 0 = [digit 0]"
  "showNat (Suc 0) = [digit 1]"
  "showNat 1 = [digit 1]"
  "showNat (numeral k) =
     (if numeral k < (10::nat) then [digit (numeral k)]
      else showNat (numeral k div 10) @ [digit (numeral k mod 10)])"
  by (simp_all add: showNat.simps[of 0] showNat.simps[of "Suc 0"] showNat.simps[of "numeral k"])

lemma isDigit_digit: "isDigit (digit d)"
proof -
  have "d mod 10 < 10" by simp
  then have "d mod 10 \<in> {0, 1, 2, 3, 4, 5, 6, 7, 8, 9}" by simp presburger
  then show ?thesis
    by (auto simp: digit_def isDigit_def byte_def)
qed

lemma digit_no_minus: "digit d \<noteq> CHR ''-''"
  using isDigit_digit[of d] by (auto simp: isDigit_def byte_def)

lemma showNat_digits: "showNat n \<noteq> [] \<and> list_all isDigit (showNat n) \<and> hd (showNat n) \<noteq> CHR ''-''"
proof (induction n rule: showNat.induct)
  case (1 n)
  show ?case
  proof (cases "n < 10")
    case True
    then show ?thesis
      by (simp add: showNat.simps[of n] isDigit_digit digit_no_minus)
  next
    case False
    with "1.IH" show ?thesis
      by (simp add: showNat.simps[of n] isDigit_digit)
  qed
qed

lemma Sprintf_v_nonempty: "Sprintf_v i \<noteq> []"
  using showNat_digits by (simp add: Sprintf_v_def)

lemma three_decimals_body:
  assumes "w \<noteq> []" and "list_all isDigit w" and "hd w \<noteq> CHR ''-''"
    and "isDigit a" and "isDigit b" and "isDigit c"
  shows "three_decimals (w @ ''.'' @ [a, b, c])"
    and "three_decimals (CHR ''-'' # w @ ''.'' @ [a, b, c])"
proof -
  define bd where "bd = w @ ''.'' @ [a, b, c]"
  have len: "length bd = length w + 4" by (simp add: bd_def)
  have tk: "take (length bd - 4) bd = w" by (simp add: bd_def)
  have pt: "bd ! (length bd - 4) = CHR ''.''" by (simp add: bd_def nth_append)
  have dr: "drop (length bd - 3) bd = [a, b, c]" by (simp add: bd_def)
  have l5: "5 \<le> length bd" using assms(1) len by (cases w) auto
  have body: "5 \<le> length bd \<and> list_all isDigit (take (length bd - 4) bd) \<and>
      bd ! (length bd - 4) = CHR ''.'' \<and> list_all isDigit (drop (length bd - 3) bd)"
    using l5 tk pt dr assms(2,4,5,6) by simp
  obtain x xs where w: "w = x # xs" using assms(1) by (cases w) auto
  with assms(3) have "x \<noteq> CHR ''-''" by simp
  then have "(case bd of c # t \<Rightarrow> if c = CHR ''-'' then t else bd | [] \<Rightarrow> bd) = bd"
    by (simp add: bd_def w)
  with body show "three_decimals (w @ ''.'' @ [a, b, c])"
    unfolding three_decimals_def bd_def[symmetric] Let_def by simp
  from body show "three_decimals (CHR ''-'' # w @ ''.'' @ [a, b, c])"
    unfolding three_decimals_def bd_def[symmetric] Let_def by simp
qed

lemma Sprintf_3f_Finite: "three_decimals (Sprintf_3f (Finite sg q))"
proof -
  let ?n = "nat (round_half_even (q * 1000))"
  have w: "showNat (?n div 1000) \<noteq> []" "list_all isDigit (showNat (?n div 1000))"
    "hd (showNat (?n div 1000)) \<noteq> CHR ''-''"
    using showNat_digits[of "?n div 1000"] by simp_all
  note td = three_decimals_body[OF w isDigit_digit isDigit_digit isDigit_digit]
  show ?thesis
  proof (cases sg)
    case True
    with td(2) show ?thesis by (simp add: Sprintf_3f_def Let_def)
  next
    case False
    with td(1) show ?thesis by (simp add: Sprintf_3f_def Let_def)
  qed
qed

subsection \<open>The range of the parsed and converted values\<close>

lemma ParseInt_range:
  assumes "ParseInt s 0 64 = (v, None)"
  shows "\<bar>v\<bar> \<le> 2 ^ 63"
proof -
  have ne: "s \<noteq> []" using assms by (auto simp: ParseInt_def)
  let ?t = "if hd s = CHR ''+'' \<or> hd s = CHR ''-'' then tl s else s"
  obtain un e where pu: "ParseUint ?t 0 64 = (un, e)"
    by (cases "ParseUint ?t 0 64") auto
  from assms ne pu show ?thesis
    by (auto simp: ParseInt_def Let_def split: if_splits)
qed

lemma int32_range: "\<bar>int32 i\<bar> \<le> 2 ^ 31"
proof -
  have "- (2 ^ 31) \<le> sint (word_of_int i :: 32 word)"
    using sint_ge[of "word_of_int i :: 32 word"] by simp
  moreover have "sint (word_of_int i :: 32 word) < 2 ^ 31"
    using sint_lt[of "word_of_int i :: 32 word"] by simp
  ultimately show ?thesis by (simp add: int32_def)
qed

lemma f64_of_int_finite:
  assumes "\<bar>i\<bar> \<le> 2 ^ 63"
  shows "\<exists>v. f64_of_int i = Finite (i < 0) v \<and> 0 \<le> v \<and> v \<le> 2 ^ 65 \<and> (i \<noteq> 0 \<longrightarrow> 1 \<le> 2 * v)"
proof -
  let ?q = "of_int \<bar>i\<bar> :: rat"
  have q0: "0 \<le> ?q" by simp
  have "?q \<le> of_int (2 ^ 63)" using assms by (simp only: of_int_le_iff)
  then have q63: "?q \<le> 2 ^ 63" by simp
  then have "?q \<le> 2 ^ 1000"
    by (rule order_trans) simp
  from round_f64_finite[OF q0 this, of "i < 0"] obtain v where
    v: "round_f64 (i < 0) ?q = Finite (i < 0) v" "0 \<le> v" "v \<le> 2 * ?q + 1"
      "1 \<le> ?q \<longrightarrow> ?q \<le> 2 * v" by blast
  have "v \<le> 2 ^ 65" using v(3) q63 by simp
  moreover have "1 \<le> 2 * v" if "i \<noteq> 0"
  proof -
    from that have "1 \<le> \<bar>i\<bar>" by simp
    then have "(1::rat) \<le> ?q" by (simp only: of_int_1_le_iff)
    with v(4) show ?thesis by simp
  qed
  ultimately show ?thesis
    using v(1,2) by (auto simp: f64_of_int_def)
qed

lemma energyValue_finite:
  assumes "\<bar>mult\<bar> \<le> 2 ^ 63" and "\<bar>dv\<bar> \<le> 2 ^ 63" and "dv \<noteq> 0"
  shows "\<exists>sg q. energyValue d mult dv = Finite sg q \<and> 0 \<le> q \<and> q \<le> 2 ^ 200"
proof -
  have "\<bar>int32 d\<bar> \<le> 2 ^ 63"
    using int32_range[of d] by simp
  from f64_of_int_finite[OF this] obtain a where
    a: "f64_of_int (int32 d) = Finite (int32 d < 0) a" "0 \<le> a" "a \<le> 2 ^ 65" by blast
  from f64_of_int_finite[OF assms(1)] obtain b where
    b: "f64_of_int mult = Finite (mult < 0) b" "0 \<le> b" "b \<le> 2 ^ 65" by blast
  from f64_of_int_finite[OF assms(2)] assms(3) obtain c where
    c: "f64_of_int dv = Finite (dv < 0) c" "1 \<le> 2 * c" by blast
  have ab: "a * b \<le> 2 ^ 65 * 2 ^ 65"
    using a b by (intro mult_mono) simp_all
  have ab0: "0 \<le> a * b" using a b by simp
  have "a * b \<le> 2 ^ 1000" using ab by (rule order_trans) simp
  from round_f64_finite[OF ab0 this, of "(int32 d < 0) \<noteq> (mult < 0)"] obtain p where
    p: "round_f64 ((int32 d < 0) \<noteq> (mult < 0)) (a * b) = Finite ((int32 d < 0) \<noteq> (mult < 0)) p"
      "0 \<le> p" "p \<le> 2 * (a * b) + 1" by blast
  have p131: "p \<le> 2 ^ 132" using p(3) ab by simp
  have c0: "0 < c" using c(2) by simp
  have "p / c \<le> p * 2"
  proof -
    have "p \<le> p * (2 * c)" using p(2) c(2) by (simp add: mult_le_cancel_left1)
    then show ?thesis using c0 by (simp add: field_simps)
  qed
  then have pc: "p / c \<le> 2 ^ 133" using p131 by simp
  have pc0: "0 \<le> p / c" using p(2) c0 by simp
  have "p / c \<le> 2 ^ 1000" using pc by (rule order_trans) simp
  from round_f64_finite[OF pc0 this] obtain q where
    q: "round_f64 (((int32 d < 0) \<noteq> (mult < 0)) \<noteq> (dv < 0)) (p / c)
        = Finite (((int32 d < 0) \<noteq> (mult < 0)) \<noteq> (dv < 0)) q"
      "0 \<le> q" "q \<le> 2 * (p / c) + 1" by blast
  have "q \<le> 2 ^ 200" using q(3) pc by simp
  moreover have "energyValue d mult dv = Finite (((int32 d < 0) \<noteq> (mult < 0)) \<noteq> (dv < 0)) q"
    using a(1) b(1) c(1) p(1) q(1) c0 by (simp add: energyValue_def)
  ultimately show ?thesis using q(2) by blast
qed

lemma powerValue_finite:
  assumes "\<bar>mult\<bar> \<le> 2 ^ 63" and "\<bar>dv\<bar> \<le> 2 ^ 63" and "dv \<noteq> 0"
  shows "\<exists>sg q. powerValue i mult dv = Finite sg q \<and> 0 \<le> q"
proof -
  from energyValue_finite[OF assms, of i] obtain sg q where
    e: "energyValue i mult dv = Finite sg q" "0 \<le> q" "q \<le> 2 ^ 200" by blast
  have q0: "0 \<le> q * 1000" using e(2) by simp
  have "q * 1000 \<le> 2 ^ 200 * 1000" using e(3) by simp
  then have "q * 1000 \<le> 2 ^ 1000" by (rule order_trans) simp
  from round_f64_finite[OF q0 this, of "sg \<noteq> False"] obtain v where
    "round_f64 (sg \<noteq> False) (q * 1000) = Finite (sg \<noteq> False) v" "0 \<le> v" by blast
  then show ?thesis
    using e(1) by (simp add: powerValue_def energyValue_def)
qed

subsection \<open>\<^verbatim>\<open>ParseInt\<close> on a field with the prefix \<^verbatim>\<open>0x\<close>\<close>

lemma isHexDigit_digitVal:
  assumes "isHexDigit c"
  shows "\<exists>d. digitVal c = Some d \<and> d < 16 \<and> c \<noteq> CHR ''_''"
proof -
  have "byte c \<in> {48..57} \<or> byte c \<in> {65..70} \<or> byte c \<in> {97..102}"
    using assms by (auto simp: isHexDigit_def byte_def)
  then have "byte c \<in> {48, 49, 50, 51, 52, 53, 54, 55, 56, 57, 65, 66, 67, 68, 69, 70,
      97, 98, 99, 100, 101, 102}"
    by (auto simp: atLeastAtMost_iff) presburger+
  then show ?thesis
    by (auto simp: digitVal_def lower_def byte_def)
qed

lemma foldl_hex_mono: "n \<le> foldl (\<lambda>n c. n * 16 + hexDigitVal c) n ds"
proof (induction ds arbitrary: n)
  case Nil
  show ?case by simp
next
  case (Cons c ds)
  have "n \<le> n * 16 + hexDigitVal c" by simp
  also have "\<dots> \<le> foldl (\<lambda>n c. n * 16 + hexDigitVal c) (n * 16 + hexDigitVal c) ds"
    by (rule Cons.IH)
  finally show ?case by simp
qed

lemma parseDigits_hex:
  assumes "list_all isHexDigit ds"
    and "foldl (\<lambda>n c. n * 16 + hexDigitVal c) n ds < 2 ^ 64"
  shows "parseDigits True 16 (maxUint64 div 16 + 1) maxUint64 ds False n
    = Inr (foldl (\<lambda>n c. n * 16 + hexDigitVal c) n ds, False)"
  using assms
proof (induction ds arbitrary: n)
  case Nil
  show ?case by simp
next
  case (Cons c ds)
  let ?n1 = "n * 16 + hexDigitVal c"
  from Cons.prems(1) have hc: "isHexDigit c" and hds: "list_all isHexDigit ds" by simp_all
  from isHexDigit_digitVal[OF hc] obtain d where
    d: "digitVal c = Some d" "d < 16" "c \<noteq> CHR ''_''" by blast
  then have hv: "hexDigitVal c = d" by (simp add: hexDigitVal_def)
  have "?n1 \<le> foldl (\<lambda>n c. n * 16 + hexDigitVal c) ?n1 ds" by (rule foldl_hex_mono)
  with Cons.prems(2) have b: "?n1 < 2 ^ 64" by simp
  then have n: "n < 2 ^ 60" by simp
  have rec: "parseDigits True 16 (maxUint64 div 16 + 1) maxUint64 ds False ?n1
    = Inr (foldl (\<lambda>n c. n * 16 + hexDigitVal c) ?n1 ds, False)"
    using Cons.IH[OF hds] Cons.prems(2) by simp
  have "n * 16 < 2 ^ 64" using b by simp
  then show ?case
    using d hv n b rec by (simp add: maxUint64_def uint64_def Let_def)
qed

lemma ParseInt_hex:
  assumes "hexDigits ds" and "hexValue ds < 2 ^ 63" and "x = CHR ''x'' \<or> x = CHR ''X''"
  shows "ParseInt (CHR ''0'' # x # ds) 0 64 = (int (hexValue ds), None)"
proof -
  from assms(1) obtain c cs where ds: "ds = c # cs" and all: "list_all isHexDigit ds"
    by (cases ds) (auto simp: hexDigits_def)
  have lx: "lower x = byte CHR ''x''"
    using assms(3) by (auto simp: lower_def byte_def)
  have bp: "basePrefix (CHR ''0'' # x # ds) = (16, ds)"
    using lx ds by (simp add: basePrefix_def byte_def)
  have "foldl (\<lambda>n c. n * 16 + hexDigitVal c) 0 ds < 2 ^ 64"
    using assms(2) by (simp add: hexValue_def)
  from parseDigits_hex[OF all this]
  have pd: "parseDigits True 16 (maxUint64 div 16 + 1) maxUint64 ds False 0
      = Inr (hexValue ds, False)"
    by (simp add: hexValue_def)
  have mv: "uint64 (uint64 (2 ^ 64) + maxUint64) = maxUint64"
    by (simp add: uint64_def maxUint64_def)
  have pu: "ParseUint (CHR ''0'' # x # ds) 0 64 = (hexValue ds, None)"
    using bp pd mv by (simp add: ParseUint_def Let_def)
  show ?thesis
    using pu assms(2) by (simp add: ParseInt_def Let_def)
qed

lemma required_hexadecimal_prefixed:
  assumes "hexDigits ds" and "x = CHR ''x'' \<or> x = CHR ''X''"
  shows "required_hexadecimal (CHR ''0'' # x # ds)"
  using assms by (auto simp: required_hexadecimal_def hasValue_def isHexadecimal_def)

subsection \<open>The two conversions on a validated record\<close>

lemma handleInstantaneousDemand_parsed:
  assumes "validInstantaneousDemand (instantaneousDemand st)"
    and "ParseInt (Demand (instantaneousDemand st)) 0 64 = (i, None)"
    and "ParseInt (InstantaneousDemand.Multiplier (instantaneousDemand st)) 0 64 = (mult, None)"
    and "ParseInt (InstantaneousDemand.Divisor (instantaneousDemand st)) 0 64 = (dv, None)"
  shows "handleInstantaneousDemand impl st
    = Next (st\<lparr>demand := Sprintf_v (f64_to_int impl (powerValue i mult dv)),
        published := published st @
          [(power_topic, Sprintf_v (f64_to_int impl (powerValue i mult dv)))]\<rparr>)"
  using assms Sprintf_v_nonempty[of "f64_to_int impl (powerValue i mult dv)"]
  by (simp add: handleInstantaneousDemand_def Let_def publishPower_def Publish_def)

lemma three_decimals_nonempty: "three_decimals s \<Longrightarrow> s \<noteq> []"
  by (auto simp: three_decimals_def Let_def)

lemma handleCurrentSummationDelivered_parsed:
  assumes "validCurrentSummationDelivered (currentSummationDelivered st)"
    and "ParseInt (SummationDelivered (currentSummationDelivered st)) 0 64 = (d, None)"
    and "ParseInt (SummationReceived (currentSummationDelivered st)) 0 64 = (rc, None)"
    and "ParseInt (CurrentSummationDelivered.Multiplier (currentSummationDelivered st)) 0 64
      = (mult, None)"
    and "ParseInt (CurrentSummationDelivered.Divisor (currentSummationDelivered st)) 0 64
      = (dv, None)"
    and "Sprintf_3f (energyValue d mult dv) \<noteq> []"
    and "Sprintf_3f (energyValue rc mult dv) \<noteq> []"
  shows "handleCurrentSummationDelivered st
    = Next (st\<lparr>delivered := Sprintf_3f (energyValue d mult dv),
        received := Sprintf_3f (energyValue rc mult dv),
        published := published st @
          [(delivered_topic, Sprintf_3f (energyValue d mult dv)),
           (received_topic, Sprintf_3f (energyValue rc mult dv))]\<rparr>)"
  using assms
  by (simp add: handleCurrentSummationDelivered_def Let_def publishEnergy_def Publish_def)

subsection \<open>Evaluation of the definitions on examples\<close>

lemmas xml_eval =
  xmlUnmarshal_def mkTag_def emitText_def isNameChar_def isTextChar_def byte_def CR_def LF_def
  setInstantaneousDemand_def setCurrentSummationDelivered_def

lemmas parse_eval =
  ParseInt_def ParseUint_def basePrefix_def lower_def byte_def digitVal_def maxUint64_def
  uint64_def required_hexadecimal_def hasValue_def isHexadecimal_def hexDigits_def
  isHexDigit_def Let_def

lemmas f64_eval =
  f64_of_int_def int32_def round_f64_def floor_log2_def pow2_def round_half_even_def
  f64_to_int_def Sprintf_v_def Sprintf_3f_def digit_def powerValue_def energyValue_def Let_def

section \<open>The claims\<close>

lemmas scan_eval =
  scanIter_def trySplit_def advance_def fillBuffer_def shiftData_def growBuffer_def
  readMore_def buf_end_def setErr_def NewScanner_def MaxScanTokenSize_def
  maxConsecutiveEmptyReads_def Read_def splitFunc_def closeInstantaneousDemand_def
  closeCurrentSummationDelivered_def closeTimeCluster_def CR_def LF_def Let_def

lemma scanIter_reads_more:
  assumes "\<not> has_marker (pending s)"
  shows "(\<forall>t s'. scanIter s \<noteq> Inl (Some t, s'))"
    and "err s = None \<Longrightarrow> length (pending s) < MaxScanTokenSize
      \<Longrightarrow> scanIter s = Inr (readMore (growBuffer (shiftData s)))"
proof -
  have ts: "trySplit s = (0, None)"
    using assms by (simp add: trySplit_def splitFunc_no_marker)
  have adv: "advance s 0 = s" by (simp add: advance_def)
  show "\<forall>t s'. scanIter s \<noteq> Inl (Some t, s')"
    using ts by (simp add: scanIter_def fillBuffer_def Let_def)
  show "scanIter s = Inr (readMore (growBuffer (shiftData s)))"
    if e: "err s = None" and l: "length (pending s) < MaxScanTokenSize"
  proof -
    have "\<not> (buf_end (shiftData s) = buf_len (shiftData s) \<and>
        buf_len (shiftData s) \<ge> MaxScanTokenSize)"
      using l by (auto simp: shiftData_def buf_end_def)
    then show ?thesis
      using ts adv e by (simp add: scanIter_def fillBuffer_def Let_def)
  qed
qed

text \<open>
  C9. Every frame the scanner emits ends with one of the three closing markers, so it is
  at least as long as that marker; the frames of a stream, laid end to end, are a prefix
  of the stream, so no two of them share a byte; and on a buffer without a closing marker
  an iteration of \<^verbatim>\<open>Scan\<close> returns no token, and (when no error is pending and the
  buffer is below its ceiling) goes on to read more bytes.
\<close>

theorem scanner_frames_are_whole_and_disjoint:
  "(\<forall>t \<in> set (tokens (NewScanner rd)).
      \<exists>m \<in> set closing_markers. suffix m t \<and> length m \<le> length t) \<and>
   prefix (concat (tokens (NewScanner rd))) (concat rd) \<and>
   (\<not> has_marker (pending s) \<longrightarrow>
      (\<forall>t s'. scanIter s \<noteq> Inl (Some t, s')) \<and>
      (err s = None \<and> length (pending s) < MaxScanTokenSize \<longrightarrow>
         scanIter s = Inr (readMore (growBuffer (shiftData s)))))"
proof -
  have "unread (NewScanner rd) = concat rd"
    by (simp add: unread_def NewScanner_def)
  with tokens_frames[of "NewScanner rd"] scanIter_reads_more[of s] show ?thesis
    by auto
qed

theorem scanner_frames_witness:
  "tokens (NewScanner [take 10 tc_frame, drop 10 tc_frame]) = [tc_frame] \<and>
   suffix closeTimeCluster tc_frame \<and> length closeTimeCluster \<le> length tc_frame \<and>
   prefix (concat [tc_frame]) (concat [take 10 tc_frame, drop 10 tc_frame]) \<and>
   \<not> has_marker (pending (NewScanner [tc_frame])) \<and>
   err (NewScanner [tc_frame]) = None \<and>
   length (pending (NewScanner [tc_frame])) < MaxScanTokenSize \<and>
   scanIter (NewScanner [tc_frame])
     = Inr (readMore (growBuffer (shiftData (NewScanner [tc_frame]))))"
proof -
  have tk: "tokens (NewScanner [take 10 tc_frame, drop 10 tc_frame]) = [tc_frame]"
    unfolding tc_frame_def
    by (simp add: tokens.simps Scan.simps scan_eval
        cong: sum.case_cong_weak prod.case_cong_weak list.case_cong_weak option.case_cong_weak)
  have nm: "\<not> has_marker (pending (NewScanner [tc_frame]))"
    by (simp add: NewScanner_def has_marker_def closing_markers_def
        closeInstantaneousDemand_def closeCurrentSummationDelivered_def closeTimeCluster_def)
  have e: "err (NewScanner [tc_frame]) = None"
    and l: "length (pending (NewScanner [tc_frame])) < MaxScanTokenSize"
    by (simp_all add: NewScanner_def MaxScanTokenSize_def)
  have sf: "suffix closeTimeCluster tc_frame"
    by (simp add: suffix_def tc_frame_def closeTimeCluster_def)
  have ln: "length closeTimeCluster \<le> length tc_frame"
    by (simp add: tc_frame_def closeTimeCluster_def)
  from scanner_frames_are_whole_and_disjoint
    [of "[take 10 tc_frame, drop 10 tc_frame]" "NewScanner [tc_frame]"] tk nm e l sf ln
  show ?thesis by simp
qed

text \<open>
  C10. For a byte sequence that is one complete frame, cut into successive non-empty
  reads at any offsets, the scanner emits the same frames, and the loop of
  \<^verbatim>\<open>scanSerial\<close> ends the same way in the same state (the same values published), as
  when the sequence arrives as a single chunk.
\<close>

theorem framing_independent_of_read_sizes:
  assumes "one_frame f" and "concat chunks = f" and "[] \<notin> set chunks"
  shows "tokens (NewScanner chunks) = tokens (NewScanner [f]) \<and>
    fst (scanSerial impl chunks) = fst (scanSerial impl [f]) \<and>
    fst (snd (scanSerial impl chunks)) = fst (snd (scanSerial impl [f]))"
proof -
  have "f \<noteq> []" using one_frame_split(3)[OF assms(1)] by auto
  then have tk: "tokens (NewScanner chunks) = tokens (NewScanner [f])"
    using tokens_one_frame[OF assms] tokens_one_frame[OF assms(1), of "[f]"] by simp
  have "runFrames impl initial_state (tokens (NewScanner chunks))
    = runFrames impl initial_state (tokens (NewScanner [f]))"
    using tk by simp
  then have "(fst (scanSerial impl chunks), fst (snd (scanSerial impl chunks)))
    = (fst (scanSerial impl [f]), fst (snd (scanSerial impl [f])))"
    by (simp add: scanSerial_def scanLoop_runFrames)
  with tk show ?thesis by simp
qed

theorem framing_independent_witness:
  "one_frame demand_frame \<and>
   concat [take 7 demand_frame, take 50 (drop 7 demand_frame), drop 57 demand_frame]
     = demand_frame \<and>
   tokens (NewScanner [take 7 demand_frame, take 50 (drop 7 demand_frame), drop 57 demand_frame])
     = tokens (NewScanner [demand_frame]) \<and>
   fst (scanSerial amd64_indefinite
         [take 7 demand_frame, take 50 (drop 7 demand_frame), drop 57 demand_frame])
     = fst (scanSerial amd64_indefinite [demand_frame]) \<and>
   fst (snd (scanSerial amd64_indefinite
         [take 7 demand_frame, take 50 (drop 7 demand_frame), drop 57 demand_frame]))
     = fst (snd (scanSerial amd64_indefinite [demand_frame]))"
proof -
  have sp: "snd (splitFunc demand_frame False) = Some demand_frame"
    by (simp add: demand_frame_def splitFunc_def closeInstantaneousDemand_def CR_def LF_def)
  have nm: "\<not> has_marker (butlast demand_frame)"
    by (simp add: demand_frame_def has_marker_def closing_markers_def
        closeInstantaneousDemand_def closeCurrentSummationDelivered_def closeTimeCluster_def
        CR_def LF_def)
  have one: "one_frame demand_frame"
    using sp nm by (rule one_frameI)
  have cc: "concat [take 7 demand_frame, take 50 (drop 7 demand_frame), drop 57 demand_frame]
      = demand_frame"
    by (simp add: demand_frame_def)
  have ne: "[] \<notin> set [take 7 demand_frame, take 50 (drop 7 demand_frame), drop 57 demand_frame]"
    by (simp add: demand_frame_def)
  from framing_independent_of_read_sizes[OF one cc ne, of amd64_indefinite] one cc
  show ?thesis by simp
qed

text \<open>
  C8. When the byte at index 1 of a frame, by which the loop tells the kinds of record
  apart, is none of \<open>I\<close>, \<open>C\<close> and \<open>T\<close>, the process ends with
  \<^verbatim>\<open>log.Fatal("Unexpected case")\<close>: nothing is published for the frame (the state is
  the one before it) and the scanner is left as it was when it returned the frame, so
  nothing more is read from the serial port.
\<close>

theorem unknown_discriminant_is_fatal:
  assumes "Scan s = (Some frame, s')"
    and "frame ! 1 \<noteq> CHR ''I''" and "frame ! 1 \<noteq> CHR ''C''" and "frame ! 1 \<noteq> CHR ''T''"
  shows "processFrame impl st frame = Fatal UnexpectedCase st \<and>
    scanLoop impl st s = (Exited UnexpectedCase, st, s')"
proof -
  from Scan_token[OF assms(1)] obtain m where
    m: "m \<in> set closing_markers" "length m \<le> length frame" by blast
  from m(1) have "16 \<le> length m"
    by (auto simp: closing_markers_def marker_lengths)
  with m(2) have "\<not> length frame < 2" by simp
  then have pf: "processFrame impl st frame = Fatal UnexpectedCase st"
    using assms(2-4) by (simp add: processFrame_def)
  with assms(1) show ?thesis
    by (simp add: scanLoop.simps[of impl st s])
qed

theorem unknown_discriminant_witness:
  "Scan (NewScanner [price_frame, tc_frame])
     = (Some price_frame,
        \<lparr>rdr = [tc_frame], buf_len = 32, start = 32, pending = [], err = None\<rparr>) \<and>
   price_frame ! 1 = CHR ''P'' \<and>
   processFrame amd64_indefinite initial_state price_frame
     = Fatal UnexpectedCase initial_state \<and>
   scanLoop amd64_indefinite initial_state (NewScanner [price_frame, tc_frame])
     = (Exited UnexpectedCase, initial_state,
        \<lparr>rdr = [tc_frame], buf_len = 32, start = 32, pending = [], err = None\<rparr>)"
proof -
  have sc: "Scan (NewScanner [price_frame, tc_frame])
     = (Some price_frame,
        \<lparr>rdr = [tc_frame], buf_len = 32, start = 32, pending = [], err = None\<rparr>)"
    unfolding price_frame_def tc_frame_def
    by (simp add: Scan.simps scan_eval
        cong: sum.case_cong_weak prod.case_cong_weak list.case_cong_weak option.case_cong_weak)
  have d: "price_frame ! 1 = CHR ''P''"
    by (simp add: price_frame_def)
  from unknown_discriminant_is_fatal[OF sc, of amd64_indefinite initial_state] sc d
  show ?thesis by simp
qed

text \<open>
  C3. The claim: a required field that passes the hexadecimal check always parses. It
  fails on \<open>FF\<close>: the check accepts hexadecimal digits without a prefix, while
  \<^verbatim>\<open>ParseInt\<close> with base 0 reads a string without a prefix as decimal. A record with
  such a field passes validation and ends the process in the parse branch.
\<close>

theorem validated_field_fails_to_parse:
  "required_hexadecimal ''FF'' \<and>
   ParseInt ''FF'' 0 64 = (0, Some ErrSyntax) \<and>
   validInstantaneousDemand bare_hex_record \<and>
   handleInstantaneousDemand amd64_indefinite
       (initial_state\<lparr>instantaneousDemand := bare_hex_record\<rparr>)
     = Fatal ErrorParsingXML (initial_state\<lparr>instantaneousDemand := bare_hex_record\<rparr>)"
proof -
  have rh: "required_hexadecimal ''FF''" "required_hexadecimal ''1''"
    by (simp_all add: parse_eval)
  have p: "ParseInt ''FF'' 0 64 = (0, Some ErrSyntax)"
    by (simp add: parse_eval)
  have f: "Demand bare_hex_record = ''FF''"
    "InstantaneousDemand.Multiplier bare_hex_record = ''1''"
    "InstantaneousDemand.Divisor bare_hex_record = ''1''"
    by (simp_all add: bare_hex_record_def)
  have v: "validInstantaneousDemand bare_hex_record"
    by (simp add: validInstantaneousDemand_def f rh)
  have "handleInstantaneousDemand amd64_indefinite
       (initial_state\<lparr>instantaneousDemand := bare_hex_record\<rparr>)
     = Fatal ErrorParsingXML (initial_state\<lparr>instantaneousDemand := bare_hex_record\<rparr>)"
    by (simp add: handleInstantaneousDemand_def v f p)
  with rh(1) p v show ?thesis by simp
qed

text \<open>
  C3, amended. A required field made of the prefix \<^verbatim>\<open>0x\<close> or \<^verbatim>\<open>0X\<close> and of
  hexadecimal digits that denote a value below \<open>2 ^ 63\<close> passes the check, and
  \<^verbatim>\<open>ParseInt\<close> returns that value and no error.
\<close>

theorem prefixed_hex_field_parses:
  assumes "hexDigits ds" and "hexValue ds < 2 ^ 63" and "x = CHR ''x'' \<or> x = CHR ''X''"
  shows "required_hexadecimal (CHR ''0'' # x # ds) \<and>
    ParseInt (CHR ''0'' # x # ds) 0 64 = (int (hexValue ds), None)"
  using required_hexadecimal_prefixed[OF assms(1,3)] ParseInt_hex[OF assms] by simp

theorem prefixed_hex_field_witness:
  "hexDigits ''FFFFFFFF'' \<and> hexValue ''FFFFFFFF'' = 4294967295 \<and>
   required_hexadecimal ''0xFFFFFFFF'' \<and>
   ParseInt ''0xFFFFFFFF'' 0 64 = (4294967295, None)"
proof -
  have h: "hexDigits ''FFFFFFFF''"
    by (simp add: parse_eval)
  have v: "hexValue ''FFFFFFFF'' = 4294967295"
    by (simp add: hexValue_def hexDigitVal_def parse_eval)
  have b: "hexValue ''FFFFFFFF'' < 2 ^ 63"
    by (simp add: v)
  from prefixed_hex_field_parses[OF h b, of "CHR ''x''"] h v show ?thesis by simp
qed

text \<open>
  C6. A validated demand record whose demand field denotes \<open>FFFFFFFF\<close> (as the meter
  writes it, \<^verbatim>\<open>0xFFFFFFFF\<close>), with multiplier 1 and divisor 1, gives the power reading
  \<open>-1000\<close>, published as the text \<^verbatim>\<open>-1000\<close>.
\<close>

theorem sign_recovery:
  assumes "validInstantaneousDemand (instantaneousDemand st)"
    and "ParseInt (Demand (instantaneousDemand st)) 0 64 = (0xFFFFFFFF, None)"
    and "ParseInt (InstantaneousDemand.Multiplier (instantaneousDemand st)) 0 64 = (1, None)"
    and "ParseInt (InstantaneousDemand.Divisor (instantaneousDemand st)) 0 64 = (1, None)"
  shows "f64_to_int impl (powerValue 0xFFFFFFFF 1 1) = - 1000 \<and>
    handleInstantaneousDemand impl st
      = Next (st\<lparr>demand := ''-1000'',
          published := published st @ [(power_topic, ''-1000'')]\<rparr>)"
proof -
  have pv: "powerValue 0xFFFFFFFF 1 1 = Finite True 1000"
    by (simp add: f64_eval)
  have ti: "f64_to_int impl (Finite True 1000) = - 1000"
    by (simp add: f64_eval)
  have sv: "Sprintf_v (- 1000) = ''-1000''"
    by (simp add: f64_eval)
  from handleInstantaneousDemand_parsed[OF assms, of impl] pv ti sv show ?thesis
    by simp
qed

theorem sign_recovery_witness:
  "validInstantaneousDemand reverse_flow_record \<and>
   ParseInt (Demand reverse_flow_record) 0 64 = (0xFFFFFFFF, None) \<and>
   ParseInt (InstantaneousDemand.Multiplier reverse_flow_record) 0 64 = (1, None) \<and>
   ParseInt (InstantaneousDemand.Divisor reverse_flow_record) 0 64 = (1, None) \<and>
   handleInstantaneousDemand amd64_indefinite
       (initial_state\<lparr>instantaneousDemand := reverse_flow_record\<rparr>)
     = Next (initial_state\<lparr>instantaneousDemand := reverse_flow_record, demand := ''-1000'',
         published := [(power_topic, ''-1000'')]\<rparr>)"
proof -
  let ?st = "initial_state\<lparr>instantaneousDemand := reverse_flow_record\<rparr>"
  have f: "Demand reverse_flow_record = ''0xFFFFFFFF''"
    "InstantaneousDemand.Multiplier reverse_flow_record = ''1''"
    "InstantaneousDemand.Divisor reverse_flow_record = ''1''"
    by (simp_all add: reverse_flow_record_def)
  have rh: "required_hexadecimal ''0xFFFFFFFF''" "required_hexadecimal ''1''"
    by (simp_all add: parse_eval)
  have p: "ParseInt ''0xFFFFFFFF'' 0 64 = (0xFFFFFFFF, None)" "ParseInt ''1'' 0 64 = (1, None)"
    by (simp_all add: parse_eval)
  have v: "validInstantaneousDemand (instantaneousDemand ?st)"
    by (simp add: validInstantaneousDemand_def f rh)
  have p1: "ParseInt (Demand (instantaneousDemand ?st)) 0 64 = (0xFFFFFFFF, None)"
    and p2: "ParseInt (InstantaneousDemand.Multiplier (instantaneousDemand ?st)) 0 64 = (1, None)"
    and p3: "ParseInt (InstantaneousDemand.Divisor (instantaneousDemand ?st)) 0 64 = (1, None)"
    by (simp_all add: f p)
  have pub: "published ?st = []"
    by (simp add: initial_state_def)
  from sign_recovery[OF v p1 p2 p3, of amd64_indefinite] v p1 p2 p3 pub show ?thesis
    by simp
qed

text \<open>
  C7. A validated summation record with a divisor other than zero publishes, for the
  delivered and for the received energy, the \<^verbatim>\<open>float64\<close> value of
  \<open>summation_i32 * multiplier / divisor\<close> written with exactly three decimals; for
  the summation \<open>0000270F\<close> (9999), multiplier 1 and divisor 1000 the text is
  \<^verbatim>\<open>9.999\<close>.
\<close>

theorem energy_has_three_decimals:
  assumes "validCurrentSummationDelivered (currentSummationDelivered st)"
    and "ParseInt (SummationDelivered (currentSummationDelivered st)) 0 64 = (d, None)"
    and "ParseInt (SummationReceived (currentSummationDelivered st)) 0 64 = (rc, None)"
    and "ParseInt (CurrentSummationDelivered.Multiplier (currentSummationDelivered st)) 0 64
      = (mult, None)"
    and "ParseInt (CurrentSummationDelivered.Divisor (currentSummationDelivered st)) 0 64
      = (dv, None)"
    and "dv \<noteq> 0"
  shows "handleCurrentSummationDelivered st
      = Next (st\<lparr>delivered := Sprintf_3f (energyValue d mult dv),
          received := Sprintf_3f (energyValue rc mult dv),
          published := published st @
            [(delivered_topic, Sprintf_3f (energyValue d mult dv)),
             (received_topic, Sprintf_3f (energyValue rc mult dv))]\<rparr>) \<and>
    three_decimals (Sprintf_3f (energyValue d mult dv)) \<and>
    three_decimals (Sprintf_3f (energyValue rc mult dv)) \<and>
    Sprintf_3f (energyValue 0x0000270F 1 1000) = ''9.999''"
proof -
  note r = ParseInt_range[OF assms(4)] ParseInt_range[OF assms(5)] assms(6)
  from energyValue_finite[OF r, of d] have td: "three_decimals (Sprintf_3f (energyValue d mult dv))"
    by (auto simp: Sprintf_3f_Finite)
  from energyValue_finite[OF r, of rc] have tr: "three_decimals (Sprintf_3f (energyValue rc mult dv))"
    by (auto simp: Sprintf_3f_Finite)
  have ex: "Sprintf_3f (energyValue 0x0000270F 1 1000) = ''9.999''"
    by (simp add: f64_eval)
  from handleCurrentSummationDelivered_parsed[OF assms(1-5)
      three_decimals_nonempty[OF td] three_decimals_nonempty[OF tr]] td tr ex
  show ?thesis by simp
qed

theorem energy_has_three_decimals_witness:
  "validCurrentSummationDelivered summation_record \<and>
   ParseInt (SummationDelivered summation_record) 0 64 = (0x0000270F, None) \<and>
   ParseInt (SummationReceived summation_record) 0 64 = (0, None) \<and>
   ParseInt (CurrentSummationDelivered.Multiplier summation_record) 0 64 = (1, None) \<and>
   ParseInt (CurrentSummationDelivered.Divisor summation_record) 0 64 = (1000, None) \<and>
   handleCurrentSummationDelivered
       (initial_state\<lparr>currentSummationDelivered := summation_record\<rparr>)
     = Next (initial_state\<lparr>currentSummationDelivered := summation_record,
         delivered := ''9.999'', received := ''0.000'',
         published := [(delivered_topic, ''9.999''), (received_topic, ''0.000'')]\<rparr>) \<and>
   three_decimals ''9.999'' \<and> three_decimals ''0.000''"
proof -
  let ?st = "initial_state\<lparr>currentSummationDelivered := summation_record\<rparr>"
  have f: "SummationDelivered summation_record = ''0x0000270F''"
    "SummationReceived summation_record = ''0x00000000''"
    "CurrentSummationDelivered.Multiplier summation_record = ''1''"
    "CurrentSummationDelivered.Divisor summation_record = ''1000''"
    by (simp_all add: summation_record_def)
  have rh: "required_hexadecimal ''0x0000270F''" "required_hexadecimal ''0x00000000''"
    "required_hexadecimal ''1''" "required_hexadecimal ''1000''"
    by (simp_all add: parse_eval)
  have p: "ParseInt ''0x0000270F'' 0 64 = (0x0000270F, None)"
    "ParseInt ''0x00000000'' 0 64 = (0, None)"
    "ParseInt ''1'' 0 64 = (1, None)" "ParseInt ''1000'' 0 64 = (1000, None)"
    by (simp_all add: parse_eval)
  have v: "validCurrentSummationDelivered (currentSummationDelivered ?st)"
    by (simp add: validCurrentSummationDelivered_def f rh)
  have p1: "ParseInt (SummationDelivered (currentSummationDelivered ?st)) 0 64 = (0x0000270F, None)"
    and p2: "ParseInt (SummationReceived (currentSummationDelivered ?st)) 0 64 = (0, None)"
    and p3: "ParseInt (CurrentSummationDelivered.Multiplier (currentSummationDelivered ?st)) 0 64
      = (1, None)"
    and p4: "ParseInt (CurrentSummationDelivered.Divisor (currentSummationDelivered ?st)) 0 64
      = (1000, None)"
    by (simp_all add: f p)
  have e0: "Sprintf_3f (energyValue 0 1 1000) = ''0.000''"
    and e1: "Sprintf_3f (energyValue 9999 1 1000) = ''9.999''"
    by (simp_all add: f64_eval)
  have pub: "published ?st = []"
    by (simp add: initial_state_def)
  have nz: "(1000::int) \<noteq> 0" by simp
  from energy_has_three_decimals[OF v p1 p2 p3 p4 nz] v p1 p2 p3 p4 pub show ?thesis
    by (simp add: e0 e1)
qed

text \<open>
  C4. The claim: the emitted frame ends at the earliest closing marker of any of the three
  kinds. On a buffer that holds a complete time-cluster record followed by a complete
  instantaneous-demand record, the split function returns the whole buffer (both records)
  as one token, because the instantaneous-demand marker is searched first; the frame of
  the specification is the time-cluster record alone.
\<close>

theorem splitFunc_prefers_InstantaneousDemand:
  "splitFunc two_records False = (78, Some two_records) \<and>
   spec_next_frame two_records = Some (take 31 two_records) \<and>
   length two_records = 78"
  by (simp add: splitFunc_def spec_next_frame_def marker_end_def min_opt_def two_records_def
      closeInstantaneousDemand_def closeCurrentSummationDelivered_def closeTimeCluster_def
      CR_def LF_def)

end
